theory Spec2Isabelle
  imports Main "HOL-Library.Char_ord" "HOL-Library.List_Lexorder" "HOL-Library.Multiset" "HOL-Library.AList"
begin

section \<open>Strings\<close>

text \<open>
  Go strings are byte sequences; they are modelled as \<open>char list\<close>. The functions of this
  section are the ones of Go's \<open>strings\<close> package that \<open>main.go\<close> calls.

  \<open>strings.ToLower\<close> first tests whether every byte of its argument is below \<open>0x80\<close>
  (\<open>utf8.RuneSelf\<close>); if so it adds \<open>'a' - 'A'\<close> to the bytes \<open>A\<close>..\<open>Z\<close> and keeps the others.
  \<open>isASCII\<close> is that test and \<open>ToLower\<close> is that branch. On a string with a byte from
  \<open>0x80\<close> on, \<open>strings.ToLower\<close> maps \<open>unicode.ToLower\<close> over the runes; that branch is not
  modelled, and a theorem that states the lower-cased form of an arbitrary string
  assumes \<open>isASCII\<close> of that string.
\<close>

abbreviation slash :: char where "slash \<equiv> CHR ''/''"
abbreviation backslash :: char where "backslash \<equiv> CHR 0x5C"

definition lowerChar :: "char \<Rightarrow> char" where
  "lowerChar c =
     (if CHR ''A'' \<le> c \<and> c \<le> CHR ''Z'' then char_of (of_char c + (32::nat)) else c)"

definition isASCII :: "string \<Rightarrow> bool" where
  "isASCII s = list_all (\<lambda>c. (of_char c :: nat) < 128) s"

definition ToLower :: "string \<Rightarrow> string" where
  "ToLower s = map lowerChar s"

definition HasPrefix :: "string \<Rightarrow> string \<Rightarrow> bool" where
  "HasPrefix s p = (take (length p) s = p)"

definition HasSuffix :: "string \<Rightarrow> string \<Rightarrow> bool" where
  "HasSuffix s x = (length x \<le> length s \<and> drop (length s - length x) s = x)"

definition TrimSuffix :: "string \<Rightarrow> string \<Rightarrow> string" where
  "TrimSuffix s x = (if HasSuffix s x then take (length s - length x) s else s)"

fun Contains :: "string \<Rightarrow> string \<Rightarrow> bool" where
  "Contains [] x = (x = [])"
| "Contains (c # cs) x = (HasPrefix (c # cs) x \<or> Contains cs x)"

text \<open>\<open>strings.ReplaceAll\<close> with one-byte arguments, as in \<open>ReplaceAll(p, "\\", "/")\<close>.\<close>

definition ReplaceAllChar :: "string \<Rightarrow> char \<Rightarrow> char \<Rightarrow> string" where
  "ReplaceAllChar s old new = map (\<lambda>c. if c = old then new else c) s"

text \<open>\<open>strings.Split\<close> with a one-byte separator: the empty string splits into \<open>[""]\<close>.\<close>

fun Split :: "string \<Rightarrow> char \<Rightarrow> string list" where
  "Split [] sep = [[]]"
| "Split (c # cs) sep =
     (if c = sep then [] # Split cs sep
      else (case Split cs sep of [] \<Rightarrow> [[c]] | x # xs \<Rightarrow> (c # x) # xs))"

fun Join :: "string list \<Rightarrow> string \<Rightarrow> string" where
  "Join [] sep = []"
| "Join [x] sep = x"
| "Join (x # y # ys) sep = x @ sep @ Join (y # ys) sep"

section \<open>Lexical paths\<close>

text \<open>
  The functions of Go's \<open>path/filepath\<close> that \<open>main.go\<close> calls, in their Unix form
  (separator \<open>/\<close>, no volume name). \<open>Clean\<close> drops empty and \<open>.\<close> elements, lets a \<open>..\<close>
  remove the element before it (a leading \<open>..\<close> is kept in a relative path and dropped
  in a rooted one), and turns the empty result into \<open>.\<close>; \<open>cleanElems\<close> is its loop over
  the elements, \<open>out\<close> the elements written so far, last one first.
\<close>

fun cleanElems :: "bool \<Rightarrow> string list \<Rightarrow> string list \<Rightarrow> string list" where
  "cleanElems rooted out [] = rev out"
| "cleanElems rooted out (e # es) =
     (if e = [] \<or> e = ''.'' then cleanElems rooted out es
      else if e = ''..'' then
        (case out of
           [] \<Rightarrow> if rooted then cleanElems rooted [] es else cleanElems rooted [''..''] es
         | a # as \<Rightarrow> if a = ''..'' then cleanElems rooted (''..'' # out) es
                     else cleanElems rooted as es)
      else cleanElems rooted (e # out) es)"

definition Clean :: "string \<Rightarrow> string" where
  "Clean path =
     (if path = [] then ''.''
      else let rooted = (hd path = slash);
               body = Join (cleanElems rooted [] (Split path slash)) ''/''
           in if rooted then slash # body else if body = [] then ''.'' else body)"

text \<open>\<open>Dir\<close> cleans what precedes the last element, the last separator included.\<close>

definition Dir :: "string \<Rightarrow> string" where
  "Dir path = Clean (rev (dropWhile (\<lambda>c. c \<noteq> slash) (rev path)))"

definition Base :: "string \<Rightarrow> string" where
  "Base path =
     (if path = [] then ''.''
      else let p = rev (dropWhile (\<lambda>c. c = slash) (rev path));
               b = rev (takeWhile (\<lambda>c. c \<noteq> slash) (rev p))
           in if b = [] then ''/'' else b)"

text \<open>\<open>filepath.Join\<close> of two elements: joined from the first non-empty one on, then cleaned.\<close>

definition Join2 :: "string \<Rightarrow> string \<Rightarrow> string" where
  "Join2 a b = (if a \<noteq> [] then Clean (a @ ''/'' @ b) else if b \<noteq> [] then Clean b else [])"

section \<open>The document-extension swap\<close>

text \<open>
  \<open>ConvertSingleHtmlFile\<close> computes the output path of a document as
  \<^verbatim>\<open>mdPath := strings.TrimSuffix(htmlPath, ".html")\<close>,
  \<^verbatim>\<open>mdPath = strings.TrimSuffix(mdPath, ".md") + ".md"\<close>.
  \<open>ConvertHtmlLinksToMd\<close> applies the same two \<open>TrimSuffix\<close> calls to a file name
  (its \<open>baseFilename\<close>) and appends \<open>.md\<close>.
\<close>

definition baseFilenameOf :: "string \<Rightarrow> string" where
  "baseFilenameOf filename = TrimSuffix (TrimSuffix filename ''.html'') ''.md''"

definition mdPathOf :: "string \<Rightarrow> string" where
  "mdPathOf htmlPath = TrimSuffix (TrimSuffix htmlPath ''.html'') ''.md'' @ ''.md''"

section \<open>The link rewriter\<close>

definition ConvertDirectoryToLowercase :: "string \<Rightarrow> string" where
  "ConvertDirectoryToLowercase dirPath =
     Join (map ToLower (Split (ReplaceAllChar dirPath backslash slash) slash)) ''/''"

text \<open>
  The function that \<open>ConvertHtmlLinksToMd\<close> passes to \<open>ReplaceAllStringFunc\<close>, applied to
  the three groups of a match: link text, path up to \<open>.html\<close>, and the rest up to the
  closing parenthesis.
\<close>

definition rewriteLink :: "string \<Rightarrow> string \<Rightarrow> string \<Rightarrow> string" where
  "rewriteLink linkText htmlPath anchor =
     (if \<not> HasPrefix htmlPath ''http'' \<and> \<not> HasPrefix htmlPath ''/''
      then
        let htmlPath = ReplaceAllChar htmlPath backslash slash;
            dir = Dir htmlPath;
            filename = Base htmlPath;
            baseFilename = TrimSuffix filename ''.html'';
            baseFilename = TrimSuffix baseFilename ''.md'';
            mdPath =
              (if dir = ''.'' \<or> dir = [] then baseFilename @ ''.md''
               else let lowerDir = ConvertDirectoryToLowercase dir
                    in ReplaceAllChar (Join2 lowerDir (baseFilename @ ''.md'')) backslash slash)
        in ''['' @ linkText @ '']('' @ mdPath @ anchor @ '')''
      else
        let baseFilename = TrimSuffix (Base htmlPath) ''.html'';
            baseFilename = TrimSuffix baseFilename ''.md'';
            dir = Dir htmlPath;
            mdPath =
              (if dir = ''.'' \<or> dir = [] then baseFilename @ ''.md''
               else let lowerDir = ConvertDirectoryToLowercase dir
                    in ReplaceAllChar (Join2 lowerDir (baseFilename @ ''.md'')) backslash slash)
        in ''['' @ linkText @ '']('' @ mdPath @ anchor @ '')'')"

text \<open>
  The pattern is \<^verbatim>\<open>\[([^\]]*)\]\(([^)]*\.html)([^)]*)\)\<close>. A match that starts at a
  \<open>[\<close> is determined by the text: group 1 runs to the first \<open>]\<close>, which \<open>(\<close> must follow;
  groups 2 and 3 together are the run of bytes other than \<open>)\<close> after it, which a \<open>)\<close>
  must end; the greedy group 2 stops after the last \<open>.html\<close> of that run.
  \<open>splitLastHtml\<close> splits the run there, and \<open>matchLink\<close> returns the three groups and
  the length of the match. \<open>replaceLinks\<close> is the left-to-right scan of
  \<open>ReplaceAllStringFunc\<close>: at the leftmost match it emits the replacement and skips the
  matched bytes (its first argument counts the bytes still to skip), other bytes are
  copied.
\<close>

fun splitLastHtml :: "string \<Rightarrow> (string \<times> string) option" where
  "splitLastHtml [] = None"
| "splitLastHtml (c # cs) =
     (case splitLastHtml cs of
        Some (p, a) \<Rightarrow> Some (c # p, a)
      | None \<Rightarrow> if HasPrefix (c # cs) ''.html'' then Some (''.html'', drop 5 (c # cs)) else None)"

definition matchLink :: "string \<Rightarrow> (string \<times> string \<times> string \<times> nat) option" where
  "matchLink s =
     (case s of
        [] \<Rightarrow> None
      | c # r \<Rightarrow>
          if c \<noteq> CHR ''['' then None
          else let linkText = takeWhile (\<lambda>c. c \<noteq> CHR '']'') r;
                   r1 = dropWhile (\<lambda>c. c \<noteq> CHR '']'') r
               in if \<not> HasPrefix r1 '']('' then None
                  else let r2 = drop 2 r1;
                           target = takeWhile (\<lambda>c. c \<noteq> CHR '')'') r2;
                           r3 = dropWhile (\<lambda>c. c \<noteq> CHR '')'') r2
                       in if r3 = [] then None
                          else (case splitLastHtml target of
                                  None \<Rightarrow> None
                                | Some (htmlPath, anchor) \<Rightarrow>
                                    Some (linkText, htmlPath, anchor,
                                          length linkText + length target + 4)))"

fun replaceLinks :: "nat \<Rightarrow> string \<Rightarrow> string" where
  "replaceLinks skip [] = []"
| "replaceLinks (Suc k) (c # cs) = replaceLinks k cs"
| "replaceLinks 0 (c # cs) =
     (case matchLink (c # cs) of
        None \<Rightarrow> c # replaceLinks 0 cs
      | Some (linkText, htmlPath, anchor, n) \<Rightarrow>
          rewriteLink linkText htmlPath anchor @ replaceLinks (n - 1) cs)"

definition ConvertHtmlLinksToMd :: "string \<Rightarrow> string" where
  "ConvertHtmlLinksToMd content = replaceLinks 0 content"

text \<open>
  Vocabulary for stating what the rewriter does to a target: the path computation that
  both branches of \<open>rewriteLink\<close> share, the non-empty elements of a path, and lists
  of elements without \<open>.\<close> and \<open>..\<close>.
\<close>

definition mdLinkPath :: "string \<Rightarrow> string" where
  "mdLinkPath htmlPath =
     (let dir = Dir htmlPath;
          baseFilename = baseFilenameOf (Base htmlPath)
      in if dir = ''.'' \<or> dir = [] then baseFilename @ ''.md''
         else ReplaceAllChar (Join2 (ConvertDirectoryToLowercase dir) (baseFilename @ ''.md''))
                backslash slash)"

definition segments :: "string \<Rightarrow> string list" where
  "segments p = filter (\<lambda>e. e \<noteq> []) (Split p slash)"

definition noDots :: "string list \<Rightarrow> bool" where
  "noDots es = (\<forall>e\<in>set es. e \<noteq> ''.'' \<and> e \<noteq> ''..'')"

text \<open>
  \<open>scanAt skip k s\<close>: the scan of \<open>s\<close> by \<open>replaceLinks\<close>, with \<open>skip\<close> bytes of a match still
  to pass over, comes to position \<open>k\<close> with no match under way. So \<open>scanAt 0 k s\<close> says
  that position \<open>k\<close> is not inside a match that \<open>ReplaceAllStringFunc\<close> replaces: a link
  that starts there is the next match.
\<close>

fun scanAt :: "nat \<Rightarrow> nat \<Rightarrow> string \<Rightarrow> bool" where
  "scanAt skip 0 s = (skip = 0)"
| "scanAt skip (Suc k) [] = False"
| "scanAt (Suc n) (Suc k) (c # cs) = scanAt n k cs"
| "scanAt 0 (Suc k) (c # cs) =
     (case matchLink (c # cs) of
        None \<Rightarrow> scanAt 0 k cs
      | Some (linkText, htmlPath, anchor, n) \<Rightarrow> scanAt (n - 1) k cs)"

text \<open>
  \<open>cleanStack rooted out\<close>: the elements \<open>out\<close>, last one first, are what \<open>cleanElems\<close> can
  have written: no empty element and no \<open>.\<close>, and \<open>..\<close> only in an unrooted path before
  every other element.
\<close>

fun cleanStack :: "bool \<Rightarrow> string list \<Rightarrow> bool" where
  "cleanStack rooted [] = True"
| "cleanStack rooted (e # out) =
     (if e = ''..'' then \<not> rooted \<and> (\<forall>x\<in>set out. x = ''..'')
      else e \<noteq> [] \<and> e \<noteq> ''.'' \<and> cleanStack rooted out)"

section \<open>The directory tree of the outline\<close>

text \<open>
  \<open>DirEntry\<close> is the struct of \<open>main.go\<close>; the pointers of \<open>Children\<close> become the entries
  themselves, and a function that updates the tree in place returns the new tree.
\<close>

datatype DirEntry = DirEntry (Name: string) (Path: string) (IsDir: bool) (Children: "DirEntry list")

text \<open>
  \<open>sortDirectoryTree\<close> sorts \<open>entry.Children\<close> with two nested index loops,
  \<^verbatim>\<open>for i := 0; i < len; i++ { for j := i + 1; j < len; j++ { ... } }\<close>;
  \<open>sortStep i j\<close> is the body of the inner loop and the folds over the index ranges are
  the loops (the length of the slice does not change). The sorted children are then
  sorted recursively.
\<close>

definition sortStep :: "nat \<Rightarrow> nat \<Rightarrow> DirEntry list \<Rightarrow> DirEntry list" where
  "sortStep i j children =
     (let a = children ! i; b = children ! j
      in if IsDir a \<and> \<not> IsDir b then children
         else if \<not> IsDir a \<and> IsDir b then children[i := b, j := a]
         else if Name a > Name b then children[i := b, j := a]
         else children)"

definition sortChildren :: "DirEntry list \<Rightarrow> DirEntry list" where
  "sortChildren children =
     fold (\<lambda>i cs. fold (sortStep i) [Suc i..<length cs] cs) [0..<length children] children"

function sortDirectoryTree :: "DirEntry \<Rightarrow> DirEntry" where
  "sortDirectoryTree (DirEntry n p d cs) =
     (if \<not> d then DirEntry n p d cs
      else DirEntry n p d (map sortDirectoryTree (sortChildren cs)))"
  by pat_completeness auto
termination
proof (relation "measure size")
  show "wf (measure size)" by simp
next
  fix n p d cs x
  assume x: "x \<in> set (sortChildren cs)"
  have step: "set (sortStep i j xs) \<subseteq> set xs \<and> length (sortStep i j xs) = length xs"
    if "i < length xs" "j < length xs" for i j and xs :: "DirEntry list"
  proof -
    have "set (xs[i := xs ! j]) \<subseteq> insert (xs ! j) (set xs)"
      by (rule set_update_subset_insert)
    then have 1: "set (xs[i := xs ! j]) \<subseteq> set xs" using that by auto
    have "set (xs[i := xs ! j, j := xs ! i]) \<subseteq> insert (xs ! i) (set (xs[i := xs ! j]))"
      by (rule set_update_subset_insert)
    with 1 have "set (xs[i := xs ! j, j := xs ! i]) \<subseteq> set xs" using that by auto
    then show ?thesis by (simp add: sortStep_def Let_def)
  qed
  have inner: "set (fold (sortStep i) js xs) \<subseteq> set xs
               \<and> length (fold (sortStep i) js xs) = length xs"
    if "i < length xs" "\<forall>j\<in>set js. j < length xs" for i js and xs :: "DirEntry list"
    using that
  proof (induction js arbitrary: xs)
    case Nil
    show ?case by simp
  next
    case (Cons j js)
    from Cons.prems have s: "set (sortStep i j xs) \<subseteq> set xs" "length (sortStep i j xs) = length xs"
      using step [of i xs j] by simp_all
    with Cons.prems have "set (fold (sortStep i) js (sortStep i j xs)) \<subseteq> set (sortStep i j xs)
          \<and> length (fold (sortStep i) js (sortStep i j xs)) = length (sortStep i j xs)"
      by (intro Cons.IH) simp_all
    with s show ?case by auto
  qed
  have outer: "set (fold (\<lambda>i cs. fold (sortStep i) [Suc i..<length cs] cs) ks xs) \<subseteq> set xs"
    if "\<forall>i\<in>set ks. i < length xs" for ks and xs :: "DirEntry list"
    using that
  proof (induction ks arbitrary: xs)
    case Nil
    show ?case by simp
  next
    case (Cons i ks)
    let ?ys = "fold (sortStep i) [Suc i..<length xs] xs"
    from Cons.prems have s: "set ?ys \<subseteq> set xs" "length ?ys = length xs"
      using inner [of i xs "[Suc i..<length xs]"] by simp_all
    with Cons.prems have "set (fold (\<lambda>i cs. fold (sortStep i) [Suc i..<length cs] cs) ks ?ys)
            \<subseteq> set ?ys"
      by (intro Cons.IH) simp
    with s show ?case by auto
  qed
  from x outer [of "[0..<length cs]" cs] have "x \<in> set cs"
    by (auto simp: sortChildren_def)
  then have "size x < Suc (size_list size cs)"
    by (simp add: less_Suc_eq_le size_list_estimation')
  then show "(x, DirEntry n p d cs) \<in> measure size" by simp
qed


text \<open>
  The order the claims speak of: a directory comes before a file, and two entries of
  the same kind are in the byte-wise lexicographic order of their names. \<open>sortedTree\<close>
  says that the children of every directory of a tree are in that order.
\<close>

definition entryLe :: "DirEntry \<Rightarrow> DirEntry \<Rightarrow> bool" where
  "entryLe a b = ((IsDir a \<and> \<not> IsDir b) \<or> (IsDir a = IsDir b \<and> Name a \<le> Name b))"

fun sortedTree :: "DirEntry \<Rightarrow> bool" where
  "sortedTree (DirEntry n p d cs) = (d \<longrightarrow> sorted_wrt entryLe cs \<and> (\<forall>c\<in>set cs. sortedTree c))"

definition exampleTree :: DirEntry where
  "exampleTree =
     DirEntry ''out'' [] True
       [DirEntry ''b.md'' ''b.md'' False [],
        DirEntry ''z'' ''z'' True
          [DirEntry ''q.md'' ''z/q.md'' False [], DirEntry ''a.md'' ''z/a.md'' False []],
        DirEntry ''a.md'' ''a.md'' False [],
        DirEntry ''c'' ''c'' True []]"

text \<open>The invariants of the inner and of the outer loop of the sort.\<close>

definition innerInv :: "nat \<Rightarrow> nat \<Rightarrow> DirEntry list \<Rightarrow> DirEntry list \<Rightarrow> bool" where
  "innerInv i J xs ys \<longleftrightarrow>
     length ys = length xs \<and> mset ys = mset xs \<and> take i ys = take i xs \<and>
     (\<forall>k. i < k \<and> k < J \<longrightarrow> entryLe (ys ! i) (ys ! k))"

definition outerInv :: "nat \<Rightarrow> DirEntry list \<Rightarrow> DirEntry list \<Rightarrow> bool" where
  "outerInv I xs zs \<longleftrightarrow>
     length zs = length xs \<and> mset zs = mset xs \<and>
     (\<forall>p q. p < I \<and> p < q \<and> q < length xs \<longrightarrow> entryLe (zs ! p) (zs ! q))"


section \<open>The file system\<close>

text \<open>
  The state that the stages of \<open>main.go\<close> work on is the tree below the output
  directory. It is modelled as a finite map from paths to entries, kept as an
  association list: a path is the list of names from the output directory down, an
  entry is a file with its content or a directory, and the output directory itself is
  the empty path, which always exists. The model is a case-sensitive file system whose
  calls fail only for the reasons written out below (a missing or an occupied path, a
  file where a directory is needed), never for lack of space or permission.
\<close>

type_synonym path = "string list"

datatype entry = FileE string | DirE

type_synonym filesystem = "(path \<times> entry) list"

datatype errno = ENOENT | EEXIST | ENOTDIR | EISDIR | EINVAL

definition Stat :: "filesystem \<Rightarrow> path \<Rightarrow> entry option" where
  "Stat fs p = (if p = [] then Some DirE else map_of fs p)"

definition isBelow :: "path \<Rightarrow> path \<Rightarrow> bool" where
  "isBelow r p = (length r < length p \<and> take (length r) p = r)"

definition addEntry :: "filesystem \<Rightarrow> path \<Rightarrow> entry \<Rightarrow> filesystem" where
  "addEntry fs p e = AList.update p e fs"

text \<open>
  \<open>filepath.Walk\<close> visits a tree in lexical order: a directory before its entries, the
  entries of a directory in the order of their names. On paths as lists of names that
  is the lexicographic order. \<open>walkBelow fs root\<close> lists what \<open>Walk\<close> visits after
  \<open>root\<close> itself; every callback of \<open>main.go\<close> skips the root. The callbacks that change
  the file system (\<open>mergeDirectories\<close>) write outside the tree they walk, so the walk
  is taken from the state at its start.
\<close>

definition walkBelow :: "filesystem \<Rightarrow> path \<Rightarrow> (path \<times> entry) list" where
  "walkBelow fs root =
     (if Stat fs root = Some DirE then sort_key fst (filter (\<lambda>(p, e). isBelow root p) fs) else [])"

text \<open>
  \<open>os.MkdirAll\<close>: nothing to do for a directory, \<open>ENOTDIR\<close> for a file, otherwise the parent
  first and then \<open>Mkdir\<close>. \<open>CopyFile\<close> is the function of \<open>main.go\<close>: open the source, make
  the directory of the destination, create the destination, copy.
\<close>

definition Mkdir :: "filesystem \<Rightarrow> path \<Rightarrow> errno option \<times> filesystem" where
  "Mkdir fs p =
     (if Stat fs p \<noteq> None then (Some EEXIST, fs)
      else if Stat fs (butlast p) \<noteq> Some DirE then (Some ENOENT, fs)
      else (None, addEntry fs p DirE))"

function MkdirAll :: "filesystem \<Rightarrow> path \<Rightarrow> errno option \<times> filesystem" where
  "MkdirAll fs p =
     (case Stat fs p of
        Some DirE \<Rightarrow> (None, fs)
      | Some (FileE c) \<Rightarrow> (Some ENOTDIR, fs)
      | None \<Rightarrow>
          (case MkdirAll fs (butlast p) of
             (Some e, fs') \<Rightarrow> (Some e, fs')
           | (None, fs') \<Rightarrow> Mkdir fs' p))"
  by pat_completeness auto
termination
  by (relation "measure (\<lambda>(fs, p). length p)") (auto simp: Stat_def split: if_splits)

declare MkdirAll.simps [simp del]

definition CopyFile :: "filesystem \<Rightarrow> path \<Rightarrow> path \<Rightarrow> errno option \<times> filesystem" where
  "CopyFile fs src dst =
     (case Stat fs src of
        None \<Rightarrow> (Some ENOENT, fs)
      | Some se \<Rightarrow>
          (case MkdirAll fs (butlast dst) of
             (Some e, fs1) \<Rightarrow> (Some e, fs1)
           | (None, fs1) \<Rightarrow>
               (case Stat fs1 dst of
                  Some DirE \<Rightarrow> (Some EISDIR, fs1)
                | _ \<Rightarrow>
                    (case se of
                       FileE c \<Rightarrow> (None, addEntry fs1 dst (FileE c))
                     | DirE \<Rightarrow> (Some EISDIR, addEntry fs1 dst (FileE []))))))"

text \<open>
  \<open>os.Rename\<close> on Unix: Go refuses an existing directory as the new name (\<open>EEXIST\<close>) before
  it calls \<open>rename(2)\<close>, which replaces an existing file by a file, refuses to put a
  directory on a file, and needs the directory of the new name to exist. A rename moves
  the entry and everything below it.
\<close>

definition moveEntries :: "path \<Rightarrow> path \<Rightarrow> filesystem \<Rightarrow> filesystem" where
  "moveEntries old new fs =
     map (\<lambda>(p, e). if p = old \<or> isBelow old p then (new @ drop (length old) p, e) else (p, e)) fs"

definition Rename :: "filesystem \<Rightarrow> path \<Rightarrow> path \<Rightarrow> errno option \<times> filesystem" where
  "Rename fs old new =
     (case Stat fs old of
        None \<Rightarrow> (Some ENOENT, fs)
      | Some oe \<Rightarrow>
          (case Stat fs new of
             Some DirE \<Rightarrow> (Some EEXIST, fs)
           | Some (FileE c) \<Rightarrow>
               if oe = DirE then (Some ENOTDIR, fs)
               else if old = new then (None, fs)
               else (None, moveEntries old new (AList.delete new fs))
           | None \<Rightarrow>
               if Stat fs (butlast new) \<noteq> Some DirE then (Some ENOENT, fs)
               else if oe = DirE \<and> isBelow old new then (Some EINVAL, fs)
               else (None, moveEntries old new fs)))"

text \<open>
  A well-formed file system has one entry per path, no entry for the empty path, and a
  directory at the parent of the path of every entry.
\<close>

definition wfFS :: "filesystem \<Rightarrow> bool" where
  "wfFS fs =
     (distinct (map fst fs) \<and>
      (\<forall>p\<in>fst ` set fs. p \<noteq> [] \<and> Stat fs (butlast p) = Some DirE))"

section \<open>Renaming the original documents\<close>

text \<open>
  \<open>RenameHtmlFiles\<close> collects the files whose lower-cased path ends in \<open>.html\<close> and then
  renames each one; \<open>renameHtmlFile\<close> is the body of its second loop. \<open>args.RenamePrefix\<close>
  is a parameter. \<open>JoinPath\<close> is \<open>filepath.Join(dir, newFilename)\<close> on a path that is a list
  of names: the new file name is split at its separators and the whole path is cleaned.
  The output directory is the root of the model, so a \<open>..\<close> at the root stays there, as in
  \<open>Clean\<close> of a rooted path.
\<close>

definition JoinPath :: "path \<Rightarrow> string \<Rightarrow> path" where
  "JoinPath dir elem = cleanElems True [] (dir @ Split elem slash)"

definition pathString :: "path \<Rightarrow> string" where
  "pathString p = Join p ''/''"

definition isHtmlFile :: "path \<times> entry \<Rightarrow> bool" where
  "isHtmlFile pe = (snd pe \<noteq> DirE \<and> HasSuffix (ToLower (pathString (fst pe))) ''.html'')"

definition renameHtmlFile :: "string \<Rightarrow> path \<Rightarrow> filesystem \<Rightarrow> filesystem" where
  "renameHtmlFile renamePrefix htmlPath fs =
     (let dir = butlast htmlPath;
          filename = last htmlPath;
          lowerFilename = ToLower filename;
          newFilename = renamePrefix @ lowerFilename;
          newPath = JoinPath dir newFilename
      in if Stat fs newPath \<noteq> None then fs
         else (case Rename fs htmlPath newPath of
                 (Some e, fs') \<Rightarrow> fs
               | (None, fs') \<Rightarrow> fs'))"

definition RenameHtmlFiles :: "string \<Rightarrow> filesystem \<Rightarrow> filesystem" where
  "RenameHtmlFiles renamePrefix fs =
     (let htmlFiles = map fst (filter isHtmlFile (walkBelow fs []))
      in fold (renameHtmlFile renamePrefix) htmlFiles fs)"

text \<open>
  A valid name of a directory entry is not empty, is not \<open>.\<close> or \<open>..\<close>, and has no
  separator. \<open>asciiNames fs\<close>: every name in the file system is valid and consists of
  bytes below \<open>0x80\<close>.
\<close>

definition validName :: "string \<Rightarrow> bool" where
  "validName n = (n \<noteq> [] \<and> n \<noteq> ''.'' \<and> n \<noteq> ''..'' \<and> slash \<notin> set n)"

definition asciiNames :: "filesystem \<Rightarrow> bool" where
  "asciiNames fs = (\<forall>p\<in>fst ` set fs. \<forall>n\<in>set p. validName n \<and> isASCII n)"

section \<open>The case normalizer\<close>

text \<open>
  \<open>mergeDirectories srcDir dstDir\<close> walks \<open>srcDir\<close>; \<open>mergeStep\<close> is its callback. The state
  of the walk is the error that stopped it (if any), the file system, and the paths
  of the destination files that were logged as already existing and skipped.
\<close>

definition mergeStep ::
    "path \<Rightarrow> path \<Rightarrow> path \<times> entry \<Rightarrow> errno option \<times> filesystem \<times> path list
     \<Rightarrow> errno option \<times> filesystem \<times> path list" where
  "mergeStep srcDir dstDir pe st =
     (case st of (err, fs, skipped) \<Rightarrow>
        if err \<noteq> None then st
        else let relPath = drop (length srcDir) (fst pe);
                 dstPath = dstDir @ relPath
             in if snd pe = DirE
                then (case MkdirAll fs dstPath of (e, fs') \<Rightarrow> (e, fs', skipped))
                else if Stat fs dstPath \<noteq> None then (None, fs, skipped @ [dstPath])
                else (case CopyFile fs (fst pe) dstPath of (e, fs') \<Rightarrow> (e, fs', skipped)))"

definition mergeDirectories ::
    "filesystem \<Rightarrow> path \<Rightarrow> path \<Rightarrow> errno option \<times> filesystem \<times> path list" where
  "mergeDirectories fs srcDir dstDir =
     (case Stat fs srcDir of
        None \<Rightarrow> (Some ENOENT, fs, [])
      | Some e \<Rightarrow> fold (mergeStep srcDir dstDir) (walkBelow fs srcDir) (None, fs, []))"

text \<open>
  \<open>renameSingleDirectoryToLowercase\<close> returns its error, the file system it leaves, and
  the skipped paths of the merge. When the lower-case path exists it calls
  \<open>mergeDirectories(finalPath, dirPath)\<close>: the source is the existing lower-case directory
  and the destination is the directory being renamed. The paths \<open>filepath.Join(dir,
  lowerName)\<close> and \<open>filepath.Join(dir, tempName)\<close> are the directory followed by one name:
  \<open>currentName\<close> is the last name of a walked path, so neither name has a separator, and
  neither is \<open>.\<close> or \<open>..\<close>.
\<close>

definition renameSingleDirectoryToLowercase ::
    "filesystem \<Rightarrow> path \<Rightarrow> errno option \<times> filesystem \<times> path list" where
  "renameSingleDirectoryToLowercase fs dirPath =
     (let dir = butlast dirPath;
          currentName = last dirPath;
          lowerName = ToLower currentName
      in if currentName = lowerName then (None, fs, [])
         else
           let finalPath = dir @ [lowerName];
               merged = (if Stat fs finalPath \<noteq> None then mergeDirectories fs finalPath dirPath
                         else (None, fs, []))
           in case merged of (merr, fs1, skipped) \<Rightarrow>
                if merr \<noteq> None then (merr, fs1, skipped)
                else if Stat fs1 dirPath = None then (None, fs1, skipped)
                else
                  let tempName = currentName @ ''_temp_rename'';
                      tempPath = dir @ [tempName]
                  in case Rename fs1 dirPath tempPath of
                       (Some e, fs2) \<Rightarrow> (Some e, fs1, skipped)
                     | (None, fs2) \<Rightarrow>
                         (case Rename fs2 tempPath finalPath of
                            (Some e, fs3) \<Rightarrow> (Some e, snd (Rename fs2 tempPath dirPath), skipped)
                          | (None, fs3) \<Rightarrow> (None, fs3, skipped)))"

text \<open>
  \<open>RenameDirectoriesToLowercase\<close> collects the directories below the root with a walk,
  reverses the slice in place (\<open>reverseLoop\<close> is the loop
  \<^verbatim>\<open>for i := len/2 - 1; i >= 0; i--\<close>), and calls the function above on each path;
  an error is logged (here: recorded with the path) and the loop goes on.
\<close>

function reverseLoop :: "int \<Rightarrow> path list \<Rightarrow> path list" where
  "reverseLoop i directories =
     (if i \<ge> 0 then
        let opp = int (length directories) - 1 - i
        in reverseLoop (i - 1)
             (directories[nat i := directories ! nat opp, nat opp := directories ! nat i])
      else directories)"
  by pat_completeness auto
termination
  by (relation "measure (\<lambda>(i, ds). nat (i + 1))") auto

declare reverseLoop.simps [simp del]

definition collectDirectories :: "filesystem \<Rightarrow> path list" where
  "collectDirectories fs = map fst (filter (\<lambda>(p, e). e = DirE) (walkBelow fs []))"

definition processingOrder :: "filesystem \<Rightarrow> path list" where
  "processingOrder fs =
     (let directories = collectDirectories fs
      in reverseLoop (int (length directories) div 2 - 1) directories)"

definition renameDirStep ::
    "path \<Rightarrow> filesystem \<times> (path \<times> errno) list \<times> path list
     \<Rightarrow> filesystem \<times> (path \<times> errno) list \<times> path list" where
  "renameDirStep dirPath st =
     (case st of (fs, errors, skipped) \<Rightarrow>
        (case renameSingleDirectoryToLowercase fs dirPath of
           (Some e, fs', sk) \<Rightarrow> (fs', errors @ [(dirPath, e)], skipped @ sk)
         | (None, fs', sk) \<Rightarrow> (fs', errors, skipped @ sk)))"

definition RenameDirectoriesToLowercase ::
    "filesystem \<Rightarrow> filesystem \<times> (path \<times> errno) list \<times> path list" where
  "RenameDirectoriesToLowercase fs = fold renameDirStep (processingOrder fs) (fs, [], [])"


section \<open>The outline\<close>

text \<open>
  \<open>BuildDirectoryTreeAfterRename\<close> walks the output directory and appends an entry for
  every directory and every \<open>.md\<close> file it keeps to the children of its parent, found by
  \<open>findParentEntry\<close> from the root along the names of the parent path. \<open>addAt\<close> is that
  search followed by the append, on the tree as a value: it fails where
  \<open>findParentEntry\<close> returns \<open>nil\<close>, and then the entry is dropped. \<open>afterRenameStep\<close> is
  the callback of the walk.
\<close>

fun addAt :: "string list \<Rightarrow> DirEntry \<Rightarrow> DirEntry \<Rightarrow> DirEntry option"
  and addIn :: "string \<Rightarrow> string list \<Rightarrow> DirEntry \<Rightarrow> DirEntry list \<Rightarrow> DirEntry list option"
where
  "addAt [] entry (DirEntry n p d cs) = Some (DirEntry n p d (cs @ [entry]))"
| "addAt (part # parts) entry (DirEntry n p d cs) =
     (case addIn part parts entry cs of
        None \<Rightarrow> None
      | Some cs' \<Rightarrow> Some (DirEntry n p d cs'))"
| "addIn part parts entry [] = None"
| "addIn part parts entry (c # cs) =
     (if IsDir c \<and> Name c = part
      then (case addAt parts entry c of None \<Rightarrow> None | Some c' \<Rightarrow> Some (c' # cs))
      else (case addIn part parts entry cs of None \<Rightarrow> None | Some cs' \<Rightarrow> Some (c # cs')))"

definition appendToParent :: "DirEntry \<Rightarrow> string \<Rightarrow> DirEntry \<Rightarrow> DirEntry" where
  "appendToParent root targetPath entry =
     (if targetPath = [] \<or> targetPath = ''.''
      then (case addAt [] entry root of None \<Rightarrow> root | Some root' \<Rightarrow> root')
      else let targetPath = ReplaceAllChar targetPath backslash slash;
               parts = Split targetPath slash
           in (case addAt parts entry root of None \<Rightarrow> root | Some root' \<Rightarrow> root'))"

definition afterRenameStep :: "string \<Rightarrow> path \<times> entry \<Rightarrow> DirEntry \<Rightarrow> DirEntry" where
  "afterRenameStep renamePrefix pe root =
     (let name = last (fst pe);
          isDir = (snd pe = DirE)
      in if HasPrefix name ''.'' \<or> name = ''book.toml'' \<or> name = ''SUMMARY.md'' then root
         else if HasSuffix (ToLower name) ''.html'' \<and> HasPrefix name renamePrefix then root
         else
           let relPath = ReplaceAllChar (pathString (fst pe)) backslash slash
           in if HasSuffix (ToLower name) ''.md''
              then
                let tempPath = TrimSuffix relPath ''.md'';
                    tempPath = TrimSuffix tempPath ''.md'' @ ''.md'';
                    displayPath = ToLower tempPath;
                    entry = DirEntry name displayPath isDir [];
                    parentPath = ReplaceAllChar (Dir relPath) backslash slash
                in appendToParent root parentPath entry
              else if \<not> isDir then root
              else
                let entry = DirEntry name relPath isDir [];
                    parentPath = ReplaceAllChar (Dir relPath) backslash slash
                in appendToParent root parentPath entry)"

definition BuildDirectoryTreeAfterRename :: "string \<Rightarrow> string \<Rightarrow> filesystem \<Rightarrow> DirEntry" where
  "BuildDirectoryTreeAfterRename renamePrefix rootName fs =
     sortDirectoryTree
       (fold (afterRenameStep renamePrefix) (walkBelow fs []) (DirEntry rootName [] True []))"

text \<open>
  \<open>writeSummaryEntries\<close> and the content of \<open>SUMMARY.md\<close> that \<open>GenerateSummaryMd\<close> builds
  and writes.
\<close>

fun Repeat :: "string \<Rightarrow> nat \<Rightarrow> string" where
  "Repeat s 0 = []"
| "Repeat s (Suc n) = s @ Repeat s n"

fun writeSummaryEntry :: "nat \<Rightarrow> DirEntry \<Rightarrow> string"
  and writeSummaryEntries :: "DirEntry list \<Rightarrow> nat \<Rightarrow> string"
where
  "writeSummaryEntry depth (DirEntry n p d cs) =
     (if d then Repeat ''  '' depth @ ''  '' @ n @ ''\<newline>'' @ writeSummaryEntries cs (depth + 1)
      else if HasSuffix (ToLower n) ''.md''
           then Repeat ''  '' depth @ ''- ['' @ TrimSuffix n ''.md'' @ '']('' @ p @ '')\<newline>''
           else [])"
| "writeSummaryEntries [] depth = []"
| "writeSummaryEntries (entry # entries) depth =
     writeSummaryEntry depth entry @ writeSummaryEntries entries depth"

definition hasIntroFile :: "filesystem \<Rightarrow> bool" where
  "hasIntroFile fs =
     (\<exists>file \<in> set [''index.html'', ''README.md'', ''readme.md'']. Stat fs [file] \<noteq> None)"

definition summaryContent :: "string \<Rightarrow> string \<Rightarrow> filesystem \<Rightarrow> string" where
  "summaryContent renamePrefix rootName fs =
     (let rootEntry = BuildDirectoryTreeAfterRename renamePrefix rootName fs
      in ''# Summary\<newline>\<newline>''
         @ (if hasIntroFile fs then ''- [Introduction](README.md)\<newline>\<newline>'' else [])
         @ writeSummaryEntries (Children rootEntry) 0)"

definition WriteFile :: "filesystem \<Rightarrow> path \<Rightarrow> string \<Rightarrow> errno option \<times> filesystem" where
  "WriteFile fs p data =
     (case Stat fs p of
        Some DirE \<Rightarrow> (Some EISDIR, fs)
      | _ \<Rightarrow> if Stat fs (butlast p) \<noteq> Some DirE then (Some ENOENT, fs)
             else (None, addEntry fs p (FileE data)))"

definition GenerateSummaryMd :: "string \<Rightarrow> string \<Rightarrow> filesystem \<Rightarrow> errno option \<times> filesystem" where
  "GenerateSummaryMd renamePrefix rootName fs =
     WriteFile fs [''SUMMARY.md''] (summaryContent renamePrefix rootName fs)"

section \<open>Example file systems\<close>

definition fsA :: filesystem where
  "fsA = [([''Docs''], DirE), ([''Docs'', ''c.txt''], FileE ''C''), ([''Docs'', ''a.txt''], FileE ''UP''),
          ([''docs''], DirE), ([''docs'', ''b.txt''], FileE ''B''), ([''docs'', ''a.txt''], FileE ''low''),
          ([''docs'', ''sub''], DirE), ([''docs'', ''sub'', ''x.txt''], FileE ''X''),
          ([''Top''], DirE), ([''Top'', ''Inner''], DirE), ([''Top'', ''Inner'', ''Page.html''], FileE ''h''),
          ([''Page.html''], FileE ''A''), ([''page.html''], FileE ''B'')]"

definition fsC :: filesystem where
  "fsC = [([''Page.md''], FileE ''# Page''), ([''_page.html''], FileE ''<h1>Page</h1>''),
          ([''book.toml''], FileE ''[book]'')]"

definition fsP :: filesystem where
  "fsP = [([''doc''], DirE), ([''doc'', ''Page.HTML''], FileE ''<p>x</p>'')]"

definition fsD :: filesystem where
  "fsD = [([''Page.html''], FileE ''A''), ([''page.html''], FileE ''B'')]"


section \<open>Vocabulary for the merge and the two-phase rename\<close>

text \<open>
  \<open>atOrBelow r p\<close>: the path \<open>p\<close> is \<open>r\<close> or lies below it. \<open>mergeImage\<close> is the
  destination path that \<open>mergeDirectories\<close> computes for a walked entry. \<open>mergeInv\<close> is the
  invariant of the walk of \<open>mergeDirectories\<close> after the entries \<open>seen\<close>: the file system
  is well formed, every entry of the start is still there, every new entry is the image
  of a walked entry and equal to it, and, as long as no error occurred, every walked
  entry has its image and the skipped paths are the images of the walked files whose
  destination existed at the start. \<open>movePath\<close> is what a rename does to one entry.
\<close>

definition atOrBelow :: "path \<Rightarrow> path \<Rightarrow> bool" where
  "atOrBelow r p = (take (length r) p = r)"

definition mergeImage :: "path \<Rightarrow> path \<Rightarrow> path \<times> entry \<Rightarrow> path" where
  "mergeImage srcDir dstDir pe = dstDir @ drop (length srcDir) (fst pe)"

definition mergeInv ::
    "filesystem \<Rightarrow> path \<Rightarrow> path \<Rightarrow> (path \<times> entry) list
     \<Rightarrow> errno option \<times> filesystem \<times> path list \<Rightarrow> bool" where
  "mergeInv fs0 srcDir dstDir seen st =
     (case st of (err, cur, skipped) \<Rightarrow>
        wfFS cur
        \<and> (\<forall>q e. Stat fs0 q = Some e \<longrightarrow> Stat cur q = Some e)
        \<and> (\<forall>q. Stat fs0 q = None \<and> Stat cur q \<noteq> None \<longrightarrow>
               (\<exists>pe\<in>set seen. q = mergeImage srcDir dstDir pe \<and> Stat cur q = Some (snd pe)))
        \<and> (err = None \<longrightarrow>
               (\<forall>pe\<in>set seen. Stat cur (mergeImage srcDir dstDir pe) \<noteq> None
                   \<and> (snd pe = DirE \<longrightarrow> Stat cur (mergeImage srcDir dstDir pe) = Some DirE))
               \<and> skipped = map (mergeImage srcDir dstDir)
                             (filter (\<lambda>pe. snd pe \<noteq> DirE
                                \<and> Stat fs0 (mergeImage srcDir dstDir pe) \<noteq> None) seen)))"

definition movePath :: "path \<Rightarrow> path \<Rightarrow> path \<times> entry \<Rightarrow> path \<times> entry" where
  "movePath old new pe =
     (if atOrBelow old (fst pe) then (new @ drop (length old) (fst pe), snd pe) else pe)"

text \<open>
  A collision: the directory \<open>Docs\<close> and the lower-case directory \<open>docs\<close> side by side;
  \<open>fsE1\<close> is the state after the merge and \<open>fsE2\<close> the state after phase one of the rename.
\<close>

definition fsE :: filesystem where
  "fsE = [([''Docs''], DirE), ([''Docs'', ''a.txt''], FileE ''UP''), ([''Docs'', ''c.txt''], FileE ''C''),
          ([''docs''], DirE), ([''docs'', ''a.txt''], FileE ''low''), ([''docs'', ''b.txt''], FileE ''B'')]"

definition fsE1 :: filesystem where
  "fsE1 = fsE @ [([''Docs'', ''b.txt''], FileE ''B'')]"

definition fsE2 :: filesystem where
  "fsE2 = [([''Docs_temp_rename''], DirE), ([''Docs_temp_rename'', ''a.txt''], FileE ''UP''),
           ([''Docs_temp_rename'', ''c.txt''], FileE ''C''), ([''docs''], DirE),
           ([''docs'', ''a.txt''], FileE ''low''), ([''docs'', ''b.txt''], FileE ''B''),
           ([''Docs_temp_rename'', ''b.txt''], FileE ''B'')]"

text \<open>
  A collision in which the merge fails: \<open>sub\<close> is a directory in \<open>docs\<close> and a file in \<open>Docs\<close>.
\<close>

definition fsF :: filesystem where
  "fsF = [([''Docs''], DirE), ([''Docs'', ''sub''], FileE ''f''),
          ([''docs''], DirE), ([''docs'', ''sub''], DirE)]"

section \<open>Vocabulary for the renaming of the original documents\<close>

text \<open>
  \<open>renamedPath\<close> is the path that the loop of \<open>RenameHtmlFiles\<close> computes for a file when the
  prefix has no separator: the directory of the file, then the prefix followed by the
  lower-cased file name. \<open>htmlFileOf fs p\<close>: \<open>p\<close> is a file of \<open>fs\<close> with valid names whose
  lower-cased name ends in \<open>.html\<close>. \<open>renameInv\<close> is the invariant of the loop after the
  files \<open>seen\<close>, with the files \<open>todo\<close> still to come: the file system is well formed; the
  files to come are untouched; only the paths of the files seen and their new paths
  have changed; the content of a file seen is under its old path or under its new path
  (which is not the path of a file to come); and it is under its new path if that path
  was free at the start and is the new path of no other collected file.
\<close>

definition renamedPath :: "string \<Rightarrow> path \<Rightarrow> path" where
  "renamedPath renamePrefix htmlPath = butlast htmlPath @ [renamePrefix @ ToLower (last htmlPath)]"

definition htmlFileOf :: "filesystem \<Rightarrow> path \<Rightarrow> bool" where
  "htmlFileOf fs p = ((\<exists>c. Stat fs p = Some (FileE c)) \<and> (\<forall>n\<in>set p. validName n)
                      \<and> HasSuffix (ToLower (last p)) ''.html'')"

definition renameInv ::
    "string \<Rightarrow> filesystem \<Rightarrow> path list \<Rightarrow> path list \<Rightarrow> filesystem \<Rightarrow> bool" where
  "renameInv renamePrefix fs seen todo cur =
     (wfFS cur
      \<and> (\<forall>p\<in>set todo. Stat cur p = Stat fs p)
      \<and> (\<forall>q. Stat cur q \<noteq> Stat fs q \<longrightarrow> q \<in> set seen \<or> q \<in> renamedPath renamePrefix ` set seen)
      \<and> (\<forall>p\<in>set seen. \<forall>c. Stat fs p = Some (FileE c) \<longrightarrow>
            Stat cur p = Some (FileE c)
            \<or> (Stat cur (renamedPath renamePrefix p) = Some (FileE c)
               \<and> renamedPath renamePrefix p \<notin> set todo))
      \<and> (\<forall>p\<in>set seen. \<forall>c. Stat fs p = Some (FileE c) \<and> Stat fs (renamedPath renamePrefix p) = None
              \<and> (\<forall>p2\<in>set seen \<union> set todo. p2 \<noteq> p \<longrightarrow>
                    renamedPath renamePrefix p2 \<noteq> renamedPath renamePrefix p) \<longrightarrow>
            Stat cur (renamedPath renamePrefix p) = Some (FileE c)
            \<and> renamedPath renamePrefix p \<notin> set todo))"



section \<open>Facts about the string functions\<close>

lemma HasSuffix_append [simp]: "HasSuffix (s @ x) x"
  by (simp add: HasSuffix_def)

lemma TrimSuffix_append [simp]: "TrimSuffix (s @ x) x = s"
  by (simp add: TrimSuffix_def)

lemma HasSuffix_iff: "HasSuffix s x \<longleftrightarrow> (\<exists>t. s = t @ x)"
proof
  assume "HasSuffix s x"
  then have "s = take (length s - length x) s @ x"
    by (metis HasSuffix_def append_take_drop_id)
  then show "\<exists>t. s = t @ x" ..
next
  assume "\<exists>t. s = t @ x"
  then show "HasSuffix s x" by auto
qed

lemma not_html_suffix_of_md: "\<not> HasSuffix (t @ ''.md'') ''.html''"
proof
  assume "HasSuffix (t @ ''.md'') ''.html''"
  then obtain u where "t @ ''.md'' = u @ ''.html''"
    by (auto simp: HasSuffix_iff)
  then have "last (t @ ''.md'') = last (u @ ''.html'')" by simp
  then show False by simp
qed

lemma TrimSuffix_html_md [simp]: "TrimSuffix (t @ ''.md'') ''.html'' = t @ ''.md''"
  using not_html_suffix_of_md [of t] by (simp add: TrimSuffix_def)

lemma mdPathOf_md [simp]: "mdPathOf (t @ ''.md'') = t @ ''.md''"
  by (simp add: mdPathOf_def)

lemma mdPathOf_md_html [simp]: "mdPathOf (t @ ''.md.html'') = t @ ''.md''"
proof -
  have "t @ ''.md.html'' = (t @ ''.md'') @ ''.html''" by simp
  then have "TrimSuffix (t @ ''.md.html'') ''.html'' = t @ ''.md''"
    by (metis TrimSuffix_append)
  then show ?thesis by (simp add: mdPathOf_def)
qed

lemma mdPathOf_idem [simp]: "mdPathOf (mdPathOf s) = mdPathOf s"
proof -
  have "mdPathOf s = TrimSuffix (TrimSuffix s ''.html'') ''.md'' @ ''.md''"
    by (simp add: mdPathOf_def)
  then show ?thesis by (metis mdPathOf_md)
qed

lemma mdPathOf_funpow_md: "(mdPathOf ^^ n) (t @ ''.md'') = t @ ''.md''"
  by (induction n) simp_all

lemma mdPathOf_funpow_Suc: "(mdPathOf ^^ Suc n) s = mdPathOf s"
  by (induction n) simp_all

lemma mdPathOf_base: "mdPathOf f = baseFilenameOf f @ ''.md''"
  by (simp add: mdPathOf_def baseFilenameOf_def)

lemma rewriteLink_eq:
  "rewriteLink linkText htmlPath anchor =
     (if \<not> HasPrefix htmlPath ''http'' \<and> \<not> HasPrefix htmlPath ''/''
      then ''['' @ linkText @ '']('' @ mdLinkPath (ReplaceAllChar htmlPath backslash slash)
             @ anchor @ '')''
      else ''['' @ linkText @ '']('' @ mdLinkPath htmlPath @ anchor @ '')'')"
  by (simp add: rewriteLink_def mdLinkPath_def baseFilenameOf_def Let_def)

section \<open>Facts about paths\<close>

lemma Split_nonempty [simp]: "Split s sep \<noteq> []"
  by (induction s) (auto split: list.splits)

lemma Split_no_sep: "sep \<notin> set s \<Longrightarrow> Split s sep = [s]"
  by (induction s) auto

lemma Split_cons_plain: "sep \<notin> set a \<Longrightarrow> Split (a @ sep # b) sep = a # Split b sep"
  by (induction a) (auto split: list.splits)

lemma Split_app: "Split (a @ sep # b) sep = Split a sep @ Split b sep"
proof (induction a)
  case Nil
  then show ?case by simp
next
  case (Cons c a)
  then show ?case by (cases "Split a sep") (auto split: list.splits)
qed

lemma set_Split_no_sep: "e \<in> set (Split s sep) \<Longrightarrow> sep \<notin> set e"
  by (induction s arbitrary: e) (auto split: if_splits list.splits)

lemma Join_Split: "Join (Split s sep) [sep] = s"
proof (induction s)
  case Nil
  then show ?case by simp
next
  case (Cons c s)
  show ?case
  proof (cases "Split s sep")
    case Nil
    then show ?thesis using Split_nonempty by blast
  next
    case (Cons x xs)
    with Cons.IH show ?thesis by (cases xs) auto
  qed
qed

lemma Join_append_one: "xs \<noteq> [] \<Longrightarrow> Join (xs @ [y]) sep = Join xs sep @ sep @ y"
  by (induction xs sep rule: Join.induct) auto

lemma Split_Join: "es \<noteq> [] \<Longrightarrow> \<forall>e\<in>set es. sep \<notin> set e \<Longrightarrow> Split (Join es [sep]) sep = es"
proof (induction es "[sep]" rule: Join.induct)
  case 1
  then show ?case by simp
next
  case (2 x)
  then show ?case by (simp add: Split_no_sep)
next
  case (3 x y ys)
  then show ?case by (simp add: Split_cons_plain)
qed


lemma of_char_lowerChar:
  "(of_char (lowerChar c) :: nat) =
     (if 65 \<le> (of_char c :: nat) \<and> (of_char c :: nat) \<le> 90 then of_char c + 32 else of_char c)"
  by (simp add: lowerChar_def less_eq_char_def)

lemma lowerChar_eq_iff:
  assumes "(of_char d :: nat) < 65 \<or> (90 < (of_char d :: nat) \<and> (of_char d :: nat) < 97) \<or> 122 < (of_char d :: nat)"
  shows "lowerChar c = d \<longleftrightarrow> c = d"
proof
  assume "lowerChar c = d"
  then have "(of_char (lowerChar c) :: nat) = of_char d" by simp
  with assms have "(of_char c :: nat) = of_char d"
    by (auto simp: of_char_lowerChar split: if_splits)
  then show "c = d" by (simp add: of_char_eq_iff)
next
  assume "c = d"
  with assms show "lowerChar c = d"
    by (auto simp: lowerChar_def less_eq_char_def)
qed

lemma lowerChar_slash [simp]: "lowerChar c = slash \<longleftrightarrow> c = slash"
  by (rule lowerChar_eq_iff) simp

lemma lowerChar_backslash [simp]: "lowerChar c = backslash \<longleftrightarrow> c = backslash"
  by (rule lowerChar_eq_iff) simp

lemma lowerChar_dot [simp]: "lowerChar c = CHR ''.'' \<longleftrightarrow> c = CHR ''.''"
  by (rule lowerChar_eq_iff) simp

lemma lowerChar_slash' [simp]: "lowerChar slash = slash"
  using lowerChar_slash by blast

lemma ToLower_Split: "map ToLower (Split s slash) = Split (ToLower s) slash"
proof (induction s)
  case Nil
  then show ?case by (simp add: ToLower_def)
next
  case (Cons c s)
  then show ?case
    by (cases "Split s slash"; cases "Split (map lowerChar s) slash")
       (auto simp: ToLower_def)
qed

lemma ToLower_append [simp]: "ToLower (a @ b) = ToLower a @ ToLower b"
  by (simp add: ToLower_def)

lemma ToLower_Join: "ToLower (Join es ''/'') = Join (map ToLower es) ''/''"
proof (induction es "''/''" rule: Join.induct)
  case 1
  then show ?case by (simp add: ToLower_def)
next
  case (2 x)
  then show ?case by simp
next
  case (3 x y ys)
  have "ToLower ''/'' = ''/''" using lowerChar_slash' by (simp add: ToLower_def)
  with 3 show ?case by (simp add: ToLower_def)
qed

lemma ReplaceAllChar_id: "old \<notin> set s \<Longrightarrow> ReplaceAllChar s old new = s"
  by (induction s) (auto simp: ReplaceAllChar_def)

lemma ConvertDirectoryToLowercase_eq:
  "ConvertDirectoryToLowercase d = ToLower (ReplaceAllChar d backslash slash)"
proof -
  have "Join (Split (ToLower (ReplaceAllChar d backslash slash)) slash) [slash]
        = ToLower (ReplaceAllChar d backslash slash)"
    by (rule Join_Split)
  then show ?thesis
    by (simp add: ConvertDirectoryToLowercase_def ToLower_Split)
qed

lemma cleanElems_noDots:
  "noDots es \<Longrightarrow> cleanElems rooted out es = rev out @ filter (\<lambda>e. e \<noteq> []) es"
  by (induction es arbitrary: out) (auto simp: noDots_def)

lemma Join_nonempty: "es \<noteq> [] \<Longrightarrow> hd es \<noteq> [] \<Longrightarrow> Join es sep \<noteq> []"
  by (induction es sep rule: Join.induct) auto

lemma hd_Split: "s \<noteq> [] \<Longrightarrow> hd s \<noteq> sep \<Longrightarrow> hd (Split s sep) \<noteq> []"
  by (cases s) (auto split: list.splits)

lemma Clean_noDots:
  assumes "p \<noteq> []" "noDots (Split p slash)"
  shows "Clean p = (if hd p = slash then ''/'' else []) @ Join (segments p) ''/''"
proof (cases "hd p = slash")
  case True
  with assms show ?thesis
    by (simp add: Clean_def cleanElems_noDots segments_def)
next
  case False
  with assms(1) have "hd (Split p slash) \<noteq> []" by (simp add: hd_Split)
  then have "segments p \<noteq> [] \<and> hd (segments p) \<noteq> []"
    unfolding segments_def by (cases "Split p slash") auto
  then have "Join (segments p) ''/'' \<noteq> []" by (simp add: Join_nonempty)
  with False assms show ?thesis
    by (simp add: Clean_def cleanElems_noDots segments_def)
qed

lemma dropWhile_notin: "c \<notin> set f \<Longrightarrow> dropWhile (\<lambda>x. x \<noteq> c) (f @ r) = dropWhile (\<lambda>x. x \<noteq> c) r"
  by (induction f) auto

lemma takeWhile_notin: "c \<notin> set f \<Longrightarrow> takeWhile (\<lambda>x. x \<noteq> c) (f @ c # r) = f"
  by (induction f) auto

lemma takeWhile_notin_all: "c \<notin> set f \<Longrightarrow> takeWhile (\<lambda>x. x \<noteq> c) f = f"
  by (induction f) auto

lemma dropWhile_notin_all: "c \<notin> set f \<Longrightarrow> dropWhile (\<lambda>x. x \<noteq> c) f = []"
  by (induction f) auto

lemma dropWhile_eq_none: "g \<noteq> [] \<Longrightarrow> c \<notin> set g \<Longrightarrow> dropWhile (\<lambda>x. x = c) (g @ r) = g @ r"
  by (cases g) auto

lemma Dir_slash: "slash \<notin> set f \<Longrightarrow> Dir (a @ slash # f) = Clean (a @ ''/'')"
proof -
  assume "slash \<notin> set f"
  then have "slash \<notin> set (rev f)" by simp
  then have "dropWhile (\<lambda>c. c \<noteq> slash) (rev f @ slash # rev a) = slash # rev a"
    by (simp add: dropWhile_notin)
  then show ?thesis by (simp add: Dir_def)
qed

lemma Dir_no_slash: "slash \<notin> set f \<Longrightarrow> Dir f = ''.''"
proof -
  assume "slash \<notin> set f"
  then have "slash \<notin> set (rev f)" by simp
  then have "dropWhile (\<lambda>c. c \<noteq> slash) (rev f) = []" by (rule dropWhile_notin_all)
  then show ?thesis by (simp add: Dir_def Clean_def)
qed

lemma Base_slash: "slash \<notin> set f \<Longrightarrow> f \<noteq> [] \<Longrightarrow> Base (a @ slash # f) = f"
proof -
  assume f: "slash \<notin> set f" "f \<noteq> []"
  then have g: "rev f \<noteq> []" "slash \<notin> set (rev f)" by simp_all
  have 1: "dropWhile (\<lambda>c. c = slash) (rev f @ slash # rev a) = rev f @ slash # rev a"
    by (rule dropWhile_eq_none[OF g])
  have 2: "takeWhile (\<lambda>c. c \<noteq> slash) (rev f @ slash # rev a) = rev f"
    by (rule takeWhile_notin[OF g(2)])
  show ?thesis using f(2) by (simp add: Base_def 1 2)
qed

lemma Base_no_slash: "slash \<notin> set f \<Longrightarrow> f \<noteq> [] \<Longrightarrow> Base f = f"
proof -
  assume f: "slash \<notin> set f" "f \<noteq> []"
  then have g: "rev f \<noteq> []" "slash \<notin> set (rev f)" by simp_all
  have 1: "dropWhile (\<lambda>c. c = slash) (rev f) = rev f"
    using dropWhile_eq_none[OF g, of "[]"] by simp
  have 2: "takeWhile (\<lambda>c. c \<noteq> slash) (rev f) = rev f"
    by (rule takeWhile_notin_all[OF g(2)])
  show ?thesis using f(2) by (simp add: Base_def 1 2)
qed

lemma set_Split_subset: "e \<in> set (Split s sep) \<Longrightarrow> set e \<subseteq> set s"
proof (induction s arbitrary: e)
  case Nil
  then show ?case by simp
next
  case (Cons c s)
  show ?case
  proof (cases "Split s sep")
    case Nil
    then show ?thesis using Split_nonempty by blast
  next
    case (Cons x xs)
    then have "set x \<subseteq> set s" "\<forall>y\<in>set xs. set y \<subseteq> set s"
      using Cons.IH by auto
    with Cons Cons.prems show ?thesis
      by (auto split: if_splits)
  qed
qed

lemma set_Join_subset: "set (Join es sep) \<subseteq> \<Union> (set ` set es) \<union> set sep"
  by (induction es sep rule: Join.induct) auto

lemma Join_eq_dot: "Join es ''/'' = ''.'' \<Longrightarrow> es \<noteq> [] \<Longrightarrow> es = [''.'']"
  by (induction es "''/''" rule: Join.induct) (auto simp: append_eq_Cons_conv)

lemma set_segments: "e \<in> set (segments s) \<Longrightarrow> e \<in> set (Split s slash) \<and> e \<noteq> []"
  by (simp add: segments_def)

lemma segments_chars: "e \<in> set (segments s) \<Longrightarrow> set e \<subseteq> set s \<and> slash \<notin> set e \<and> e \<noteq> []"
  using set_Split_subset set_Split_no_sep set_segments by blast

lemma segments_append_slash: "segments (a @ ''/'') = segments a"
  using Split_app [of a slash "[]"] by (simp add: segments_def)

lemma segments_Join:
  assumes "\<forall>e\<in>set es. e \<noteq> [] \<and> slash \<notin> set e"
  shows "segments (Join es ''/'') = es"
proof (cases "es = []")
  case True
  then show ?thesis by (simp add: segments_def)
next
  case False
  with assms have "Split (Join es [slash]) slash = es"
    by (intro Split_Join) auto
  moreover from assms have "filter (\<lambda>e. e \<noteq> []) es = es" by (induction es) auto
  ultimately show ?thesis by (simp add: segments_def)
qed

lemma segments_slash_Join:
  assumes "\<forall>e\<in>set es. e \<noteq> [] \<and> slash \<notin> set e"
  shows "segments (slash # Join es ''/'') = es"
  using segments_Join [OF assms] by (simp add: segments_def)

lemma segments_lead:
  assumes "\<forall>e\<in>set es. e \<noteq> [] \<and> slash \<notin> set e" "lead = [] \<or> lead = ''/''"
  shows "segments (lead @ Join es ''/'') = es"
  using assms segments_Join segments_slash_Join by auto

lemma Split_lead_noDots:
  assumes "\<forall>e\<in>set es. e \<noteq> [] \<and> slash \<notin> set e" "lead = [] \<or> lead = ''/''" "noDots es"
  shows "noDots (Split (lead @ Join es ''/'') slash)"
proof -
  have "\<forall>e\<in>set (Split (lead @ Join es ''/'') slash). e = [] \<or> e \<in> set es"
  proof
    fix e assume e: "e \<in> set (Split (lead @ Join es ''/'') slash)"
    show "e = [] \<or> e \<in> set es"
    proof (cases "e = []")
      case False
      with e have "e \<in> set (segments (lead @ Join es ''/''))" by (simp add: segments_def)
      then show ?thesis using segments_lead [OF assms(1,2)] by simp
    qed simp
  qed
  with assms(3) show ?thesis by (auto simp: noDots_def)
qed

lemma ToLower_eq_Nil [simp]: "ToLower e = [] \<longleftrightarrow> e = []"
  by (simp add: ToLower_def)

lemma ToLower_eq_dot [simp]: "ToLower e = ''.'' \<longleftrightarrow> e = ''.''"
  by (cases e) (auto simp: ToLower_def)

lemma ToLower_eq_dotdot [simp]: "ToLower e = ''..'' \<longleftrightarrow> e = ''..''"
  by (cases e; cases "tl e") (auto simp: ToLower_def)

lemma lowerChar_backslash' [simp]: "lowerChar backslash = backslash"
  using lowerChar_backslash by blast

lemma slash_ToLower [simp]: "slash \<in> set (ToLower e) \<longleftrightarrow> slash \<in> set e"
  by (induction e) (auto simp: ToLower_def eq_commute [of slash])

lemma backslash_ToLower [simp]: "backslash \<in> set (ToLower e) \<longleftrightarrow> backslash \<in> set e"
  by (induction e) (auto simp: ToLower_def eq_commute [of backslash])

lemma TrimSuffix_set: "set (TrimSuffix s x) \<subseteq> set s"
  by (auto simp: TrimSuffix_def dest: in_set_takeD)

lemma baseFilenameOf_set: "set (baseFilenameOf f) \<subseteq> set f"
  unfolding baseFilenameOf_def using TrimSuffix_set by blast

lemma mdPathOf_set: "set (mdPathOf f) \<subseteq> set f \<union> set ''.md''"
  unfolding mdPathOf_base using baseFilenameOf_set [of f] by auto

lemma mdPathOf_not_dots: "mdPathOf f \<noteq> [] \<and> mdPathOf f \<noteq> ''.'' \<and> mdPathOf f \<noteq> ''..''"
proof -
  have "length (mdPathOf f) \<ge> 3" by (simp add: mdPathOf_def)
  then show ?thesis by auto
qed

lemma Clean_lead:
  assumes es: "\<forall>e\<in>set es. e \<noteq> [] \<and> slash \<notin> set e" "noDots es"
    and lead: "lead = [] \<or> lead = ''/''"
    and ne: "lead @ Join es ''/'' \<noteq> []"
  shows "Clean (lead @ Join es ''/'') = lead @ Join es ''/''"
proof -
  let ?p = "lead @ Join es ''/''"
  have nd: "noDots (Split ?p slash)" by (rule Split_lead_noDots [OF es(1) lead es(2)])
  have seg: "segments ?p = es" by (rule segments_lead [OF es(1) lead])
  have hd: "(hd ?p = slash) = (lead = ''/'')"
  proof (cases "lead = ''/''")
    case True
    then show ?thesis by simp
  next
    case False
    with lead have l: "lead = []" by simp
    with ne have "es \<noteq> []" by auto
    then obtain x xs where x: "es = x # xs" by (cases es) auto
    with es(1) have "x \<noteq> []" "slash \<notin> set x" by auto
    then have "hd x \<noteq> slash" by (cases x) auto
    moreover have "hd (Join (x # xs) ''/'') = hd x"
      using \<open>x \<noteq> []\<close> by (cases xs) auto
    ultimately show ?thesis using l x by simp
  qed
  show ?thesis
    using Clean_noDots [OF ne nd] seg hd lead by auto
qed


lemma hd_lead:
  assumes es: "\<forall>e\<in>set es. e \<noteq> [] \<and> slash \<notin> set e"
    and lead: "lead = [] \<or> lead = ''/''"
    and ne: "lead @ Join es ''/'' \<noteq> []"
  shows "(hd (lead @ Join es ''/'') = slash) = (lead = ''/'')"
proof (cases "lead = ''/''")
  case True
  then show ?thesis by simp
next
  case False
  with lead have l: "lead = []" by simp
  with ne have "es \<noteq> []" by auto
  then obtain x xs where x: "es = x # xs" by (cases es) auto
  with es have "x \<noteq> []" "slash \<notin> set x" by auto
  then have "hd x \<noteq> slash" by (cases x) auto
  moreover have "hd (Join (x # xs) ''/'') = hd x"
    using \<open>x \<noteq> []\<close> by (cases xs) auto
  ultimately show ?thesis using l x by simp
qed

lemma noDots_append [simp]: "noDots (xs @ ys) \<longleftrightarrow> noDots xs \<and> noDots ys"
  by (auto simp: noDots_def)

lemma noDots_segments: "noDots (Split a slash) \<Longrightarrow> noDots (segments a)"
  by (auto simp: noDots_def segments_def)

lemma noDots_map_ToLower: "noDots es \<Longrightarrow> noDots (map ToLower es)"
  by (auto simp: noDots_def)

lemma mdLinkPath_slash:
  assumes f: "slash \<notin> set f" "f \<noteq> []"
    and bs: "backslash \<notin> set a" "backslash \<notin> set f"
    and nd: "noDots (Split a slash)"
  shows "mdLinkPath (a @ slash # f) =
           (if a = [] \<or> hd a = slash then ''/'' else []) @
           Join (map ToLower (segments a) @ [mdPathOf f]) ''/''"
proof -
  define lead where "lead = (if a = [] \<or> hd a = slash then ''/'' else [])"
  define sa where "sa = segments a"
  define fm where "fm = mdPathOf f"
  have lead: "lead = [] \<or> lead = ''/''" by (simp add: lead_def)
  have sa: "\<forall>e\<in>set sa. e \<noteq> [] \<and> slash \<notin> set e"
    unfolding sa_def using segments_chars by blast
  have sa_bs: "\<forall>e\<in>set sa. backslash \<notin> set e"
    unfolding sa_def using segments_chars bs(1) by blast
  have sa_nd: "noDots sa" unfolding sa_def by (rule noDots_segments [OF nd])
  have lsa: "\<forall>e\<in>set (map ToLower sa). e \<noteq> [] \<and> slash \<notin> set e" using sa by simp
  have lsa_nd: "noDots (map ToLower sa)" by (rule noDots_map_ToLower [OF sa_nd])
  \<comment> \<open>the directory\<close>
  have "Split (a @ ''/'') slash = Split a slash @ [[]]"
    using Split_app [of a slash "[]"] by simp
  then have nd': "noDots (Split (a @ ''/'') slash)" using nd by (simp add: noDots_def)
  have hd': "(hd (a @ ''/'') = slash) = (a = [] \<or> hd a = slash)" by (cases a) auto
  have dir: "Dir (a @ slash # f) = lead @ Join sa ''/''"
    using Clean_noDots [OF _ nd'] hd'
    by (simp add: Dir_slash [OF f(1)] segments_append_slash lead_def sa_def)
  have dir_ne: "lead @ Join sa ''/'' \<noteq> []"
  proof (cases "a = [] \<or> hd a = slash")
    case True
    then show ?thesis by (simp add: lead_def)
  next
    case False
    then have "hd (Split a slash) \<noteq> []" by (simp add: hd_Split)
    then have "sa \<noteq> [] \<and> hd sa \<noteq> []"
      unfolding sa_def segments_def by (cases "Split a slash") auto
    then show ?thesis by (simp add: Join_nonempty)
  qed
  have dir_nd: "lead @ Join sa ''/'' \<noteq> ''.''"
  proof
    assume d: "lead @ Join sa ''/'' = ''.''"
    with lead have l: "lead = []" by auto
    with d dir_ne have "sa = [''.'']" by (auto intro: Join_eq_dot)
    with sa_nd show False by (simp add: noDots_def)
  qed
  \<comment> \<open>the lowercased directory\<close>
  have "set (Join sa ''/'') \<subseteq> \<Union> (set ` set sa) \<union> set ''/''" by (rule set_Join_subset)
  with sa_bs lead have nbs: "backslash \<notin> set (lead @ Join sa ''/'')" by auto
  have tl: "ToLower lead = lead" using lead by (auto simp: ToLower_def)
  have "ReplaceAllChar (lead @ Join sa ''/'') backslash slash = lead @ Join sa ''/''"
    by (rule ReplaceAllChar_id [OF nbs])
  then have low0: "ConvertDirectoryToLowercase (lead @ Join sa ''/'') = ToLower (lead @ Join sa ''/'')"
    by (simp only: ConvertDirectoryToLowercase_eq)
  have low1: "ToLower (lead @ Join sa ''/'') = lead @ Join (map ToLower sa) ''/''"
    by (simp only: ToLower_append tl ToLower_Join)
  have low: "ConvertDirectoryToLowercase (lead @ Join sa ''/'') = lead @ Join (map ToLower sa) ''/''"
    using low0 low1 by (rule trans)
  have "ToLower (lead @ Join sa ''/'') \<noteq> []"
    using dir_ne by (simp only: ToLower_eq_Nil not_False_eq_True)
  then have low_ne: "lead @ Join (map ToLower sa) ''/'' \<noteq> []"
    by (simp only: low1 not_False_eq_True)
  \<comment> \<open>the joined path\<close>
  have fm: "slash \<notin> set fm" "backslash \<notin> set fm" "fm \<noteq> []" "fm \<noteq> ''.''" "fm \<noteq> ''..''"
    using mdPathOf_set [of f] f(1) bs(2) mdPathOf_not_dots [of f] by (auto simp: fm_def)
  let ?q = "(lead @ Join (map ToLower sa) ''/'') @ ''/'' @ fm"
  have "Split ?q slash = Split (lead @ Join (map ToLower sa) ''/'') slash @ [fm]"
    using Split_app [of "lead @ Join (map ToLower sa) ''/''" slash fm] fm(1)
    by (simp add: Split_no_sep)
  moreover have "noDots (Split (lead @ Join (map ToLower sa) ''/'') slash)"
    by (rule Split_lead_noDots [OF lsa lead lsa_nd])
  ultimately have q_nd: "noDots (Split ?q slash)" and
      q_seg: "segments ?q = map ToLower sa @ [fm]"
    using fm segments_lead [OF lsa lead] by (simp_all add: noDots_def segments_def)
  have q_hd: "(hd ?q = slash) = (lead = ''/'')"
  proof -
    have "hd ?q = hd (lead @ Join (map ToLower sa) ''/'')"
      using low_ne by (rule hd_append2)
    then show ?thesis using hd_lead [OF lsa lead low_ne] by (simp only:)
  qed
  have q: "Clean ?q = lead @ Join (map ToLower sa @ [fm]) ''/''"
    using Clean_noDots [OF _ q_nd] q_seg q_hd lead by auto
  have "set (Join (map ToLower sa @ [fm]) ''/'') \<subseteq> \<Union> (set ` set (map ToLower sa @ [fm])) \<union> set ''/''"
    by (rule set_Join_subset)
  with sa_bs fm(2) lead have "backslash \<notin> set (lead @ Join (map ToLower sa @ [fm]) ''/'')"
    by auto
  then have r: "ReplaceAllChar (lead @ Join (map ToLower sa @ [fm]) ''/'') backslash slash
                = lead @ Join (map ToLower sa @ [fm]) ''/''"
    by (rule ReplaceAllChar_id)
  have "Join2 (lead @ Join (map ToLower sa) ''/'') fm = Clean ?q"
    using low_ne by (simp add: Join2_def)
  with q r dir dir_ne dir_nd low show ?thesis
    by (simp add: mdLinkPath_def Base_slash [OF f] Let_def mdPathOf_base fm_def lead_def sa_def)
qed

lemma mdLinkPath_no_slash:
  assumes "slash \<notin> set f" "f \<noteq> []"
  shows "mdLinkPath f = mdPathOf f"
  using assms by (simp add: mdLinkPath_def Dir_no_slash Base_no_slash mdPathOf_base)

section \<open>Facts about the link scanner\<close>

lemma replaceLinks_skip: "replaceLinks (length xs) (xs @ post) = replaceLinks 0 post"
  by (induction xs) simp_all

lemma matchLink_not_bracket: "CHR ''['' \<noteq> c \<Longrightarrow> matchLink (c # cs) = None"
  by (auto simp: matchLink_def)

lemma replaceLinks_pre: "CHR ''['' \<notin> set pre \<Longrightarrow> replaceLinks 0 (pre @ s) = pre @ replaceLinks 0 s"
  by (induction pre) (simp_all add: matchLink_not_bracket)

lemma splitLastHtml_None_iff: "splitLastHtml s = None \<longleftrightarrow> \<not> Contains s ''.html''"
  by (induction s) (auto split: option.splits)

lemma splitLastHtml_append:
  "splitLastHtml s = Some (p, a) \<Longrightarrow> splitLastHtml (u @ s) = Some (u @ p, a)"
  by (induction u) simp_all

lemma splitLastHtml_html:
  assumes "splitLastHtml a = None"
  shows "splitLastHtml (''.html'' @ a) = Some (''.html'', a)"
proof -
  have 1: "splitLastHtml (CHR ''l'' # a) = None" using assms by (simp add: HasPrefix_def)
  have 2: "splitLastHtml (CHR ''m'' # CHR ''l'' # a) = None" using 1 by (simp add: HasPrefix_def)
  have 3: "splitLastHtml (CHR ''t'' # CHR ''m'' # CHR ''l'' # a) = None"
    using 2 by (simp add: HasPrefix_def)
  have 4: "splitLastHtml (CHR ''h'' # CHR ''t'' # CHR ''m'' # CHR ''l'' # a) = None"
    using 3 by (simp add: HasPrefix_def)
  show ?thesis using 4 by (simp add: HasPrefix_def)
qed

lemma splitLastHtml_target:
  assumes "\<not> Contains a ''.html''"
  shows "splitLastHtml (u @ ''.html'' @ a) = Some (u @ ''.html'', a)"
proof -
  have "splitLastHtml a = None" using assms by (simp add: splitLastHtml_None_iff)
  then have "splitLastHtml (''.html'' @ a) = Some (''.html'', a)" by (rule splitLastHtml_html)
  then show ?thesis by (rule splitLastHtml_append)
qed

lemma matchLink_general:
  assumes t: "CHR '']'' \<notin> set t" and g: "CHR '')'' \<notin> set g"
    and sp: "splitLastHtml g = Some (p, a)"
  shows "matchLink (CHR ''['' # t @ CHR '']'' # CHR ''('' # g @ CHR '')'' # post)
         = Some (t, p, a, length t + length g + 4)"
proof -
  let ?r = "t @ CHR '']'' # CHR ''('' # g @ CHR '')'' # post"
  have 1: "takeWhile (\<lambda>c. c \<noteq> CHR '']'') ?r = t"
    by (rule takeWhile_notin [OF t])
  have 2: "dropWhile (\<lambda>c. c \<noteq> CHR '']'') ?r = CHR '']'' # CHR ''('' # g @ CHR '')'' # post"
    using dropWhile_notin [OF t, of "CHR '']'' # CHR ''('' # g @ CHR '')'' # post"] by simp
  have 3: "takeWhile (\<lambda>c. c \<noteq> CHR '')'') (g @ CHR '')'' # post) = g"
    by (rule takeWhile_notin [OF g])
  have 4: "dropWhile (\<lambda>c. c \<noteq> CHR '')'') (g @ CHR '')'' # post) = CHR '')'' # post"
    using dropWhile_notin [OF g, of "CHR '')'' # post"] by simp
  show ?thesis
    by (simp add: matchLink_def 1 2 3 4 sp HasPrefix_def del: takeWhile_append dropWhile_append)
qed

lemma replaceLinks_match:
  assumes "matchLink (c # m @ post) = Some (t, p, a, Suc (length m))"
  shows "replaceLinks 0 (c # m @ post) = rewriteLink t p a @ replaceLinks 0 post"
  using assms by (simp add: replaceLinks_skip)

lemma ConvertHtmlLinksToMd_link:
  assumes pre: "CHR ''['' \<notin> set pre" and t: "CHR '']'' \<notin> set t"
    and u: "CHR '')'' \<notin> set u" and a: "CHR '')'' \<notin> set a" "\<not> Contains a ''.html''"
  shows "ConvertHtmlLinksToMd (pre @ ''['' @ t @ '']('' @ u @ ''.html'' @ a @ '')'' @ post)
         = pre @ rewriteLink t (u @ ''.html'') a @ ConvertHtmlLinksToMd post"
proof -
  define g where "g = u @ ''.html'' @ a"
  define m where "m = t @ CHR '']'' # CHR ''('' # g @ [CHR '')'']"
  have g: "CHR '')'' \<notin> set g" using u a by (simp add: g_def)
  have sp: "splitLastHtml g = Some (u @ ''.html'', a)"
    unfolding g_def by (rule splitLastHtml_target [OF a(2)])
  have "matchLink (CHR ''['' # t @ CHR '']'' # CHR ''('' # g @ CHR '')'' # post)
         = Some (t, u @ ''.html'', a, length t + length g + 4)"
    by (rule matchLink_general [OF t g sp])
  moreover have "length t + length g + 4 = Suc (length m)" by (simp add: m_def)
  moreover have "t @ CHR '']'' # CHR ''('' # g @ CHR '')'' # post = m @ post" by (simp add: m_def)
  ultimately have "matchLink (CHR ''['' # m @ post) = Some (t, u @ ''.html'', a, Suc (length m))"
    by (simp only:)
  then have "replaceLinks 0 (CHR ''['' # m @ post)
             = rewriteLink t (u @ ''.html'') a @ replaceLinks 0 post"
    by (rule replaceLinks_match)
  moreover have "pre @ ''['' @ t @ '']('' @ u @ ''.html'' @ a @ '')'' @ post
                 = pre @ CHR ''['' # m @ post"
    by (simp add: m_def g_def)
  ultimately show ?thesis
    using replaceLinks_pre [OF pre, of "CHR ''['' # m @ post"]
    by (simp only: ConvertHtmlLinksToMd_def)
qed

lemma mdPathOf_html: "mdPathOf (name @ ''.html'') = TrimSuffix name ''.md'' @ ''.md''"
  using TrimSuffix_append [of name "''.html''"] by (simp add: mdPathOf_def)

section \<open>Facts about the scan position\<close>

lemma matchLink_SomeD:
  assumes "matchLink s = Some (t, h, a, n)"
  shows "\<exists>g post. s = CHR ''['' # t @ CHR '']'' # CHR ''('' # g @ CHR '')'' # post
           \<and> CHR '']'' \<notin> set t \<and> CHR '')'' \<notin> set g
           \<and> splitLastHtml g = Some (h, a) \<and> n = length t + length g + 4"
proof -
  obtain c r where s: "s = c # r" using assms by (cases s) (auto simp: matchLink_def)
  define r1 where "r1 = dropWhile (\<lambda>c. c \<noteq> CHR '']'') r"
  define r2 where "r2 = drop 2 r1"
  define g where "g = takeWhile (\<lambda>c. c \<noteq> CHR '')'') r2"
  define r3 where "r3 = dropWhile (\<lambda>c. c \<noteq> CHR '')'') r2"
  define t' where "t' = takeWhile (\<lambda>c. c \<noteq> CHR '']'') r"
  have m: "matchLink s =
     (if c \<noteq> CHR ''['' then None
      else if \<not> HasPrefix r1 '']('' then None
      else if r3 = [] then None
      else (case splitLastHtml g of None \<Rightarrow> None
            | Some (htmlPath, anchor) \<Rightarrow> Some (t', htmlPath, anchor, length t' + length g + 4)))"
    unfolding matchLink_def s r1_def r2_def g_def r3_def t'_def Let_def list.case by (rule refl)
  have c: "c = CHR ''[''"
  proof (rule ccontr)
    assume "c \<noteq> CHR ''[''"
    then have "matchLink s = None" unfolding m by simp
    then show False using assms by simp
  qed
  have hp: "HasPrefix r1 ''](''"
  proof (rule ccontr)
    assume "\<not> HasPrefix r1 ''](''"
    then have "matchLink s = None" unfolding m using c by simp
    then show False using assms by simp
  qed
  have r3: "r3 \<noteq> []"
  proof
    assume "r3 = []"
    then have "matchLink s = None" unfolding m using c hp by simp
    then show False using assms by simp
  qed
  have m2: "matchLink s = (case splitLastHtml g of None \<Rightarrow> None
            | Some (htmlPath, anchor) \<Rightarrow> Some (t', htmlPath, anchor, length t' + length g + 4))"
    unfolding m using c hp r3 by simp
  have sp: "splitLastHtml g = Some (h, a)" and t: "t = t'"
    and n: "n = length t' + length g + 4"
    using assms unfolding m2 by (auto split: option.splits)
  have "take (length '']('') r1 = ''](''" using hp unfolding HasPrefix_def .
  then have "take 2 r1 = ''](''" by (simp add: numeral_2_eq_2)
  then have "r1 = '']('' @ r2" unfolding r2_def by (metis append_take_drop_id)
  moreover have "r = t' @ r1"
    unfolding t'_def r1_def by (rule takeWhile_dropWhile_id [symmetric])
  ultimately have r: "r = t' @ '']('' @ r2" by simp
  have "hd r3 = CHR '')''" using r3 hd_dropWhile [of "\<lambda>c. c \<noteq> CHR '')''" r2]
    by (auto simp: r3_def)
  then obtain post where r3': "r3 = CHR '')'' # post" using r3 by (cases r3) auto
  have "r2 = g @ r3" unfolding g_def r3_def by (rule takeWhile_dropWhile_id [symmetric])
  then have r2: "r2 = g @ CHR '')'' # post" using r3' by simp
  have nt: "CHR '']'' \<notin> set t'" unfolding t'_def by (auto dest: set_takeWhileD)
  have ng: "CHR '')'' \<notin> set g" unfolding g_def by (auto dest: set_takeWhileD)
  show ?thesis using s c r r2 nt ng sp t n by auto
qed

lemma matchLink_prefix_Some:
  assumes "matchLink (x @ y) = Some (t, h, a, n)" and "n \<le> length x"
  shows "matchLink x = Some (t, h, a, n)"
proof -
  from matchLink_SomeD [OF assms(1)] obtain g post where
    s: "x @ y = CHR ''['' # t @ CHR '']'' # CHR ''('' # g @ CHR '')'' # post"
    and f: "CHR '']'' \<notin> set t" "CHR '')'' \<notin> set g" "splitLastHtml g = Some (h, a)"
    and n: "n = length t + length g + 4" by blast
  let ?m = "CHR ''['' # t @ CHR '']'' # CHR ''('' # g @ [CHR '')'']"
  have l: "length ?m = n" by (simp add: n)
  have "x @ y = ?m @ post" using s by simp
  then have "take n (x @ y) = ?m" using l by (metis append_eq_conv_conj)
  then have "take n x = ?m" using assms(2) by simp
  then have "x = ?m @ drop n x" by (metis append_take_drop_id)
  then have "x = CHR ''['' # t @ CHR '']'' # CHR ''('' # g @ CHR '')'' # drop n x" by simp
  then show ?thesis using matchLink_general [OF f, of "drop n x"] n by simp
qed

lemma matchLink_prefix_None:
  assumes "matchLink (x @ y) = None"
  shows "matchLink x = None"
proof (rule ccontr)
  assume "matchLink x \<noteq> None"
  then obtain t h a n where "matchLink x = Some (t, h, a, n)" by auto
  from matchLink_SomeD [OF this] obtain g post where
    s: "x = CHR ''['' # t @ CHR '']'' # CHR ''('' # g @ CHR '')'' # post"
    and f: "CHR '']'' \<notin> set t" "CHR '')'' \<notin> set g" "splitLastHtml g = Some (h, a)"
    by blast
  have "x @ y = CHR ''['' # t @ CHR '']'' # CHR ''('' # g @ CHR '')'' # (post @ y)"
    using s by simp
  then show False using matchLink_general [OF f, of "post @ y"] assms by simp
qed

lemma scanAt_le: "scanAt n k s \<Longrightarrow> n \<le> k"
  by (induction n k s rule: scanAt.induct) (auto split: option.splits)

lemma replaceLinks_Nil [simp]: "replaceLinks n [] = []"
  by simp

lemma replaceLinks_split:
  "scanAt n (length x) (x @ y) \<Longrightarrow> replaceLinks n (x @ y) = replaceLinks n x @ replaceLinks 0 y"
proof (induction x arbitrary: n)
  case Nil
  then show ?case by simp
next
  case (Cons c cs)
  show ?case
  proof (cases n)
    case (Suc m)
    then show ?thesis using Cons by simp
  next
    case 0
    show ?thesis
    proof (cases "matchLink (c # cs @ y)")
      case None
      then have "matchLink (c # cs) = None"
        using matchLink_prefix_None [of "c # cs" y] by simp
      then show ?thesis using Cons None 0 by simp
    next
      case (Some r)
      obtain t h a k where r: "r = (t, h, a, k)" by (cases r) auto
      have sc: "scanAt (k - 1) (length cs) (cs @ y)" using Cons.prems 0 Some r by simp
      from matchLink_SomeD [of "c # cs @ y" t h a k] Some r have k: "k \<ge> 4" by auto
      have "k - 1 \<le> length cs" using scanAt_le [OF sc] .
      then have "k \<le> length (c # cs)" using k by simp
      then have "matchLink (c # cs) = Some (t, h, a, k)"
        using matchLink_prefix_Some [of "c # cs" y] Some r by simp
      then show ?thesis using Cons.IH [OF sc] Some r 0 by simp
    qed
  qed
qed

lemma scanAt_no_bracket: "CHR ''['' \<notin> set pre \<Longrightarrow> scanAt 0 (length pre) (pre @ s)"
  by (induction pre) (simp_all add: matchLink_not_bracket)

lemma ConvertHtmlLinksToMd_at:
  assumes pre: "scanAt 0 (length pre) (pre @ ''['' @ t @ '']('' @ u @ ''.html'' @ a @ '')'' @ post)"
    and t: "CHR '']'' \<notin> set t"
    and u: "CHR '')'' \<notin> set u" and a: "CHR '')'' \<notin> set a" "\<not> Contains a ''.html''"
  shows "ConvertHtmlLinksToMd (pre @ ''['' @ t @ '']('' @ u @ ''.html'' @ a @ '')'' @ post)
         = ConvertHtmlLinksToMd pre @ rewriteLink t (u @ ''.html'') a @ ConvertHtmlLinksToMd post"
proof -
  have "ConvertHtmlLinksToMd ([] @ ''['' @ t @ '']('' @ u @ ''.html'' @ a @ '')'' @ post)
         = [] @ rewriteLink t (u @ ''.html'') a @ ConvertHtmlLinksToMd post"
    by (rule ConvertHtmlLinksToMd_link [OF _ t u a]) simp
  then have "replaceLinks 0 (''['' @ t @ '']('' @ u @ ''.html'' @ a @ '')'' @ post)
         = rewriteLink t (u @ ''.html'') a @ replaceLinks 0 post"
    by (simp add: ConvertHtmlLinksToMd_def)
  then show ?thesis
    using replaceLinks_split [OF pre] by (simp only: ConvertHtmlLinksToMd_def)
qed

section \<open>Facts about the loop of Clean\<close>

lemma cleanStack_elems: "cleanStack r st \<Longrightarrow> e \<in> set st \<Longrightarrow> e \<noteq> [] \<and> e \<noteq> ''.''"
  by (induction st) (auto split: if_splits)

lemma cleanStack_all_dotdot: "\<forall>x\<in>set st. x = ''..'' \<Longrightarrow> \<not> r \<Longrightarrow> cleanStack r st"
  by (induction st) auto

lemma cleanStack_suffix: "cleanStack r (ys @ zs) \<Longrightarrow> cleanStack r zs"
proof (induction ys)
  case Nil
  then show ?case by simp
next
  case (Cons y ys)
  show ?case
  proof (cases "y = ''..''")
    case True
    with Cons.prems have "\<not> r" "\<forall>x\<in>set zs. x = ''..''" by auto
    then show ?thesis by (simp add: cleanStack_all_dotdot)
  next
    case False
    with Cons show ?thesis by simp
  qed
qed

lemma cleanElems_cleanStack:
  "cleanStack r out \<Longrightarrow> cleanStack r (rev (cleanElems r out es))"
proof (induction es arbitrary: out)
  case Nil
  then show ?case by simp
next
  case (Cons e es)
  show ?case
  proof (cases "e = [] \<or> e = ''.''")
    case True
    then show ?thesis using Cons by auto
  next
    case False
    show ?thesis
    proof (cases "e = ''..''")
      case dd: True
      show ?thesis
      proof (cases out)
        case Nil
        then show ?thesis using dd Cons.IH [of "[]"] Cons.IH [of "[''..'']"] by auto
      next
        case (Cons a as)
        show ?thesis
        proof (cases "a = ''..''")
          case True
          with Cons.prems Cons have "cleanStack r (''..'' # out)" by auto
          then show ?thesis using dd Cons True \<open>\<And>out. cleanStack r out \<Longrightarrow> cleanStack r (rev (cleanElems r out es))\<close> by simp
        next
          case False
          with Cons.prems Cons have "cleanStack r as" by auto
          then show ?thesis using dd Cons False \<open>\<And>out. cleanStack r out \<Longrightarrow> cleanStack r (rev (cleanElems r out es))\<close> by simp
        qed
      qed
    next
      case nd: False
      with False Cons.prems have "cleanStack r (e # out)" by simp
      then show ?thesis using nd False Cons.IH by simp
    qed
  qed
qed

lemma cleanElems_id:
  "cleanStack r (rev xs @ out) \<Longrightarrow> cleanElems r out xs = rev out @ xs"
proof (induction xs arbitrary: out)
  case Nil
  then show ?case by simp
next
  case (Cons x xs)
  have st: "cleanStack r (rev xs @ (x # out))" using Cons.prems by simp
  then have xo: "cleanStack r (x # out)" by (rule cleanStack_suffix)
  have x: "x \<noteq> []" "x \<noteq> ''.''" using cleanStack_elems [OF xo, of x] by simp_all
  show ?case
  proof (cases "x = ''..''")
    case True
    with xo have nr: "\<not> r" and all: "\<forall>y\<in>set out. y = ''..''" by simp_all
    show ?thesis
    proof (cases out)
      case Nil
      then show ?thesis using True nr Cons.IH [of "[''..'']"] st by simp
    next
      case (Cons a as)
      with all have "a = ''..''" by simp
      then show ?thesis using True Cons \<open>\<And>out. cleanStack r (rev xs @ out) \<Longrightarrow> cleanElems r out xs = rev out @ xs\<close> [of "''..'' # out"] st by simp
    qed
  next
    case False
    then show ?thesis using x Cons.IH [OF st] by simp
  qed
qed

lemma cleanElems_append:
  "cleanElems r out (xs @ ys) = cleanElems r (rev (cleanElems r out xs)) ys"
  by (induction xs arbitrary: out) (auto split: list.splits)

lemma ToLower_dotdot: "ToLower ''..'' = ''..''"
  using ToLower_eq_dotdot [of "''..''"] by blast

lemma cleanElems_map_ToLower:
  "map ToLower (cleanElems r out es) = cleanElems r (map ToLower out) (map ToLower es)"
  by (induction es arbitrary: out) (auto simp: rev_map ToLower_dotdot split: list.splits)

lemma set_cleanElems: "set (cleanElems r out es) \<subseteq> set out \<union> set es"
proof (induction es arbitrary: out)
  case Nil
  then show ?case by simp
next
  case (Cons e es)
  show ?case
  proof (cases out)
    case Nil
    then show ?thesis using Cons [of "[]"] Cons [of "[''..'']"] Cons [of "[e]"] by auto
  next
    case (Cons a as)
    then show ?thesis
      using \<open>\<And>out. set (cleanElems r out es) \<subseteq> set out \<union> set es\<close> [of out]
        \<open>\<And>out. set (cleanElems r out es) \<subseteq> set out \<union> set es\<close> [of as]
        \<open>\<And>out. set (cleanElems r out es) \<subseteq> set out \<union> set es\<close> [of "''..'' # out"]
        \<open>\<And>out. set (cleanElems r out es) \<subseteq> set out \<union> set es\<close> [of "e # out"]
      by auto
  qed
qed

lemma cleanElems_snoc_empty: "cleanElems r [] (xs @ [[]]) = cleanElems r [] xs"
  by (simp add: cleanElems_append)

lemma cleanElems_snoc_good:
  assumes "e \<noteq> []" "e \<noteq> ''.''" "e \<noteq> ''..''"
  shows "cleanElems r [] (xs @ [e]) = cleanElems r [] xs @ [e]"
  using assms by (simp add: cleanElems_append)

lemma Join_eq_Nil: "\<forall>e\<in>set es. e \<noteq> [] \<Longrightarrow> Join es sep = [] \<longleftrightarrow> es = []"
  by (induction es sep rule: Join.induct) auto

lemma cleanElems_facts:
  assumes "E = cleanElems r [] es"
  shows "cleanStack r (rev E)" and "\<forall>e\<in>set E. e \<noteq> [] \<and> e \<noteq> ''.'' \<and> e \<in> set es"
proof -
  show c: "cleanStack r (rev E)"
    unfolding assms using cleanElems_cleanStack [of r "[]" es] by simp
  show "\<forall>e\<in>set E. e \<noteq> [] \<and> e \<noteq> ''.'' \<and> e \<in> set es"
    using cleanStack_elems [OF c] set_cleanElems [of r "[]" es] assms by auto
qed

lemma Clean_elems:
  assumes "p \<noteq> []" and "r = (hd p = slash)" and "E = cleanElems r [] (Split p slash)"
  shows "Clean p = (if r then slash # Join E ''/'' else if E = [] then ''.'' else Join E ''/'')"
proof -
  have "\<forall>e\<in>set E. e \<noteq> []" using cleanElems_facts(2) [OF assms(3)] by blast
  then have j: "Join E ''/'' = [] \<longleftrightarrow> E = []" by (rule Join_eq_Nil)
  have "Clean p = (if r then slash # Join E ''/'' else if Join E ''/'' = [] then ''.'' else Join E ''/'')"
    using assms(1) unfolding Clean_def Let_def assms(2) [symmetric] assms(3) [symmetric] by simp
  then show ?thesis using j by simp
qed

lemma Clean_clean:
  assumes c: "cleanStack r (rev es)" and ns: "\<forall>e\<in>set es. slash \<notin> set e"
    and lead: "lead = (if r then ''/'' else [])" and ne: "r \<or> es \<noteq> []"
  shows "Clean (lead @ Join es ''/'') = lead @ Join es ''/''"
proof -
  let ?p = "lead @ Join es ''/''"
  have el: "\<forall>e\<in>set es. e \<noteq> [] \<and> slash \<notin> set e"
    using cleanStack_elems [OF c] ns by auto
  have l: "lead = [] \<or> lead = ''/''" using lead by simp
  have jn: "Join es ''/'' = [] \<longleftrightarrow> es = []" using el by (simp add: Join_eq_Nil)
  have pne: "?p \<noteq> []" using ne lead jn by auto
  have hd: "(hd ?p = slash) = r" using hd_lead [OF el l pne] lead by simp
  have id: "cleanElems r [] es = es" using cleanElems_id [of r es "[]"] c by simp
  have E: "cleanElems r [] (Split ?p slash) = es"
  proof (cases r)
    case True
    show ?thesis
    proof (cases "es = []")
      case e: True
      then show ?thesis using True lead by simp
    next
      case False
      then have "Split (Join es ''/'') slash = es" using el Split_Join [of es slash] by simp
      then show ?thesis using True lead id by simp
    qed
  next
    case False
    with ne have "es \<noteq> []" by simp
    then have "Split (Join es ''/'') slash = es" using el Split_Join [of es slash] by simp
    then show ?thesis using False lead id by simp
  qed
  show ?thesis
    using Clean_elems [OF pne hd [symmetric] E [symmetric]] lead ne by auto
qed

lemma Clean_slash_slash:
  assumes "slash \<notin> set fm" "fm \<noteq> []" "fm \<noteq> ''.''" "fm \<noteq> ''..''"
  shows "Clean (''/'' @ ''/'' @ fm) = ''/'' @ fm"
proof -
  have "Split (slash # slash # fm) slash = [[], [], fm]"
    using assms(1) by (simp add: Split_no_sep)
  then show ?thesis using assms by (simp add: Clean_def)
qed

lemma mdLinkPath_general:
  assumes f: "slash \<notin> set f" "f \<noteq> []"
    and bs: "backslash \<notin> set d" "backslash \<notin> set f"
    and d: "d = [] \<or> last d = slash"
    and r: "r = (d \<noteq> [] \<and> hd d = slash)"
    and es: "es = cleanElems r [] (map ToLower (Split d slash))"
  shows "mdLinkPath (d @ f) = (if r then ''/'' else []) @ Join (es @ [mdPathOf f]) ''/''"
proof (cases "d = []")
  case True
  then have "es = []" using es r by simp
  then show ?thesis using True r mdLinkPath_no_slash [OF f] by simp
next
  case False
  with d obtain a where a: "d = a @ [slash]" by (metis append_butlast_last_id)
  define E where "E = cleanElems r [] (Split d slash)"
  define lead where "lead = (if r then ''/'' else [])"
  define fm where "fm = mdPathOf f"
  have l: "lead = [] \<or> lead = ''/''" by (simp add: lead_def)
  have es': "es = map ToLower E"
    unfolding es E_def using cleanElems_map_ToLower [of r "[]" "Split d slash"] by simp
  have Ec: "cleanStack r (rev E)" and Ee: "\<forall>e\<in>set E. e \<noteq> [] \<and> e \<noteq> ''.'' \<and> e \<in> set (Split d slash)"
    using cleanElems_facts [OF E_def] by blast+
  have esc: "cleanStack r (rev es)"
    using cleanElems_facts(1) [OF es] .
  have E_ns: "\<forall>e\<in>set E. slash \<notin> set e" using Ee set_Split_no_sep by blast
  have E_bs: "\<forall>e\<in>set E. backslash \<notin> set e" using Ee set_Split_subset bs(1) by blast
  have es_el: "\<forall>e\<in>set es. e \<noteq> [] \<and> slash \<notin> set e \<and> backslash \<notin> set e"
    using Ee E_ns E_bs by (auto simp: es')
  have fm: "slash \<notin> set fm" "backslash \<notin> set fm" "fm \<noteq> []" "fm \<noteq> ''.''" "fm \<noteq> ''..''"
    using mdPathOf_set [of f] f(1) bs(2) mdPathOf_not_dots [of f] by (auto simp: fm_def)
  have df: "d @ f = a @ slash # f" using a by simp
  have rd: "r = (hd d = slash)" using r False by simp
  \<comment> \<open>the directory\<close>
  have dir0: "Dir (d @ f) = Clean d" unfolding df using Dir_slash [OF f(1), of a] a by simp
  have dir1: "Clean d = (if r then slash # Join E ''/'' else if E = [] then ''.'' else Join E ''/'')"
    by (rule Clean_elems [OF False rd E_def])
  have base: "Base (d @ f) = f" unfolding df by (rule Base_slash [OF f])
  show ?thesis
  proof (cases "\<not> r \<and> E = []")
    case True
    then have "Dir (d @ f) = ''.''" using dir0 dir1 by simp
    moreover have "es = []" using True es' by simp
    ultimately show ?thesis
      using True base by (simp add: mdLinkPath_def Let_def mdPathOf_base)
  next
    case ne: False
    then have ne': "r \<or> E \<noteq> []" by blast
    have C: "Dir (d @ f) = lead @ Join E ''/''" using dir0 dir1 ne by (auto simp: lead_def)
    have jn: "Join E ''/'' = [] \<longleftrightarrow> E = []" using Ee by (simp add: Join_eq_Nil)
    have C_ne: "lead @ Join E ''/'' \<noteq> []" using ne' jn by (auto simp: lead_def)
    have C_nd: "lead @ Join E ''/'' \<noteq> ''.''"
    proof
      assume e: "lead @ Join E ''/'' = ''.''"
      with l have "lead = []" by auto
      with e C_ne have "E = [''.'']" by (auto intro: Join_eq_dot)
      with Ee show False by simp
    qed
    have "set (Join E ''/'') \<subseteq> \<Union> (set ` set E) \<union> set ''/''" by (rule set_Join_subset)
    with E_bs l have nbs: "backslash \<notin> set (lead @ Join E ''/'')" by auto
    have tl: "ToLower lead = lead" using l by (auto simp: ToLower_def)
    have "ReplaceAllChar (lead @ Join E ''/'') backslash slash = lead @ Join E ''/''"
      by (rule ReplaceAllChar_id [OF nbs])
    then have low0: "ConvertDirectoryToLowercase (lead @ Join E ''/'') = ToLower (lead @ Join E ''/'')"
      by (simp only: ConvertDirectoryToLowercase_eq)
    have low1: "ToLower (lead @ Join E ''/'') = lead @ Join es ''/''"
      by (simp only: ToLower_append tl ToLower_Join es')
    have low: "ConvertDirectoryToLowercase (lead @ Join E ''/'') = lead @ Join es ''/''"
      using low0 low1 by (rule trans)
    have "ToLower (lead @ Join E ''/'') \<noteq> []"
      using C_ne by (simp only: ToLower_eq_Nil not_False_eq_True)
    then have low_ne: "lead @ Join es ''/'' \<noteq> []" by (simp only: low1 not_False_eq_True)
    \<comment> \<open>the joined path\<close>
    have q: "Clean ((lead @ Join es ''/'') @ ''/'' @ fm) = lead @ Join (es @ [fm]) ''/''"
    proof (cases "es = []")
      case True
      with low_ne l have "lead = ''/''" by auto
      then show ?thesis using True Clean_slash_slash [OF fm(1,3,4,5)] by simp
    next
      case False
      have c2: "cleanStack r (rev (es @ [fm]))" using esc fm by simp
      have n2: "\<forall>e\<in>set (es @ [fm]). slash \<notin> set e" using es_el fm(1) by auto
      have "Clean (lead @ Join (es @ [fm]) ''/'') = lead @ Join (es @ [fm]) ''/''"
        by (rule Clean_clean [OF c2 n2 lead_def]) simp
      then show ?thesis using False by (simp add: Join_append_one)
    qed
    have "set (Join (es @ [fm]) ''/'') \<subseteq> \<Union> (set ` set (es @ [fm])) \<union> set ''/''"
      by (rule set_Join_subset)
    with es_el fm(2) l have "backslash \<notin> set (lead @ Join (es @ [fm]) ''/'')" by auto
    then have rr: "ReplaceAllChar (lead @ Join (es @ [fm]) ''/'') backslash slash
                  = lead @ Join (es @ [fm]) ''/''"
      by (rule ReplaceAllChar_id)
    have "Join2 (lead @ Join es ''/'') fm = Clean ((lead @ Join es ''/'') @ ''/'' @ fm)"
      using low_ne by (simp add: Join2_def)
    with q rr C C_ne C_nd low base show ?thesis
      by (simp add: mdLinkPath_def Let_def mdPathOf_base fm_def lead_def)
  qed
qed

lemma Clean_lower_dir:
  assumes f: "slash \<notin> set fm" "fm \<noteq> []" "fm \<noteq> ''.''" "fm \<noteq> ''..''"
    and d: "d = [] \<or> last d = slash"
    and r: "r = (d \<noteq> [] \<and> hd d = slash)"
    and es: "es = cleanElems r [] (map ToLower (Split d slash))"
  shows "Clean (ToLower d @ fm) = (if r then ''/'' else []) @ Join (es @ [fm]) ''/''"
proof -
  define lead where "lead = (if r then ''/'' else [])"
  have esc: "cleanStack r (rev es)" using cleanElems_facts(1) [OF es] .
  have ese: "\<forall>e\<in>set es. e \<in> set (map ToLower (Split d slash))"
    using cleanElems_facts(2) [OF es] by blast
  have "\<forall>e\<in>set (map ToLower (Split d slash)). slash \<notin> set e"
    using set_Split_no_sep [of _ d slash] by auto
  with ese have es_ns: "\<forall>e\<in>set es. slash \<notin> set e" by blast
  have c2: "cleanStack r (rev (es @ [fm]))" using esc f by simp
  have n2: "\<forall>e\<in>set (es @ [fm]). slash \<notin> set e" using es_ns f(1) by auto
  have cl: "Clean (lead @ Join (es @ [fm]) ''/'') = lead @ Join (es @ [fm]) ''/''"
    by (rule Clean_clean [OF c2 n2 lead_def]) simp
  let ?p = "ToLower d @ fm"
  have pne: "?p \<noteq> []" using f by simp
  have hd: "r = (hd ?p = slash)"
  proof (cases d)
    case Nil
    then show ?thesis using r f(1,2) by (cases fm) (auto simp: ToLower_def)
  next
    case (Cons c cs)
    then show ?thesis using r by (simp add: ToLower_def)
  qed
  have E: "cleanElems r [] (Split ?p slash) = es @ [fm]"
  proof (cases "d = []")
    case True
    then show ?thesis using es f by (simp add: Split_no_sep ToLower_def)
  next
    case False
    with d obtain a where a: "d = a @ [slash]" by (metis append_butlast_last_id)
    have "ToLower d @ fm = ToLower a @ slash # fm" using a by (simp add: ToLower_def)
    then have "Split ?p slash = Split (ToLower a) slash @ [fm]"
      using Split_app [of "ToLower a" slash fm] f(1) by (simp add: Split_no_sep)
    then have 1: "Split ?p slash = map ToLower (Split a slash) @ [fm]"
      by (simp add: ToLower_Split)
    have "Split d slash = Split a slash @ [[]]" using a Split_app [of a slash "[]"] by simp
    then have "es = cleanElems r [] (map ToLower (Split a slash) @ [[]])"
      using es by (simp add: ToLower_def)
    then have 2: "es = cleanElems r [] (map ToLower (Split a slash))"
      by (simp only: cleanElems_snoc_empty)
    show ?thesis unfolding 1 2 by (rule cleanElems_snoc_good [OF f(2,3,4)])
  qed
  have "Clean ?p = (if r then slash # Join (es @ [fm]) ''/'' else Join (es @ [fm]) ''/'')"
    using Clean_elems [OF pne hd E [symmetric]] by simp
  then show ?thesis by simp
qed

section \<open>The rewritten target in general\<close>

lemma backslash_ReplaceAllChar: "backslash \<notin> set (ReplaceAllChar s backslash slash)"
  by (auto simp: ReplaceAllChar_def)

lemma ReplaceAllChar_append:
  "ReplaceAllChar (a @ b) old new = ReplaceAllChar a old new @ ReplaceAllChar b old new"
  by (simp add: ReplaceAllChar_def)

lemma ReplaceAllChar_Nil_iff: "ReplaceAllChar s old new = [] \<longleftrightarrow> s = []"
  by (simp add: ReplaceAllChar_def)

lemma last_ReplaceAllChar:
  "s \<noteq> [] \<Longrightarrow> last (ReplaceAllChar s old new) = (if last s = old then new else last s)"
  by (simp add: ReplaceAllChar_def last_map)

lemma HasPrefix_slash: "HasPrefix s ''/'' \<longleftrightarrow> (s \<noteq> [] \<and> hd s = slash)"
  by (cases s) (auto simp: HasPrefix_def)

lemma mdName_facts:
  assumes "slash \<notin> set name"
  shows "slash \<notin> set (TrimSuffix name ''.md'' @ ''.md'')"
    and "TrimSuffix name ''.md'' @ ''.md'' \<noteq> []"
    and "TrimSuffix name ''.md'' @ ''.md'' \<noteq> ''.''"
    and "TrimSuffix name ''.md'' @ ''.md'' \<noteq> ''..''"
proof -
  show "slash \<notin> set (TrimSuffix name ''.md'' @ ''.md'')"
    using TrimSuffix_set [of name "''.md''"] assms by auto
  have "length (TrimSuffix name ''.md'' @ ''.md'') \<ge> 3" by simp
  then show "TrimSuffix name ''.md'' @ ''.md'' \<noteq> []"
    and "TrimSuffix name ''.md'' @ ''.md'' \<noteq> ''.''"
    and "TrimSuffix name ''.md'' @ ''.md'' \<noteq> ''..''" by auto
qed

lemma rewriteLink_relative_general:
  assumes d: "d = [] \<or> last d = slash \<or> last d = backslash"
    and name: "slash \<notin> set name" "backslash \<notin> set name"
    and rel: "\<not> HasPrefix (d @ name @ ''.html'') ''http''" "\<not> HasPrefix (d @ name @ ''.html'') ''/''"
    and d': "d' = ReplaceAllChar d backslash slash" and r: "rooted = HasPrefix d' ''/''"
    and dirs: "dirs = cleanElems rooted [] (map ToLower (Split d' slash))"
  shows "rewriteLink label (d @ name @ ''.html'') frag
         = ''['' @ label @ '']('' @ (if rooted then ''/'' else []) @
             Join (dirs @ [TrimSuffix name ''.md'' @ ''.md'']) ''/'' @ frag @ '')''"
proof -
  let ?f = "name @ ''.html''"
  have f: "slash \<notin> set ?f" "?f \<noteq> []" "backslash \<notin> set ?f" using name by auto
  have rf: "ReplaceAllChar ?f backslash slash = ?f" by (rule ReplaceAllChar_id [OF f(3)])
  have rp: "ReplaceAllChar (d @ ?f) backslash slash = d' @ ?f"
    using ReplaceAllChar_append [of d ?f backslash slash] by (simp only: rf d')
  have bs: "backslash \<notin> set d'" unfolding d' by (rule backslash_ReplaceAllChar)
  have dl: "d' = [] \<or> last d' = slash"
  proof (cases "d = []")
    case True
    then show ?thesis by (simp add: d' ReplaceAllChar_def)
  next
    case False
    then show ?thesis using d by (auto simp: d' last_ReplaceAllChar)
  qed
  have r': "rooted = (d' \<noteq> [] \<and> hd d' = slash)" by (simp only: r HasPrefix_slash)
  have "mdLinkPath (d' @ ?f) = (if rooted then ''/'' else []) @ Join (dirs @ [mdPathOf ?f]) ''/''"
    by (rule mdLinkPath_general [OF f(1,2) bs f(3) dl r' dirs])
  then have m: "mdLinkPath (ReplaceAllChar (d @ ?f) backslash slash)
           = (if rooted then ''/'' else []) @ Join (dirs @ [TrimSuffix name ''.md'' @ ''.md'']) ''/''"
    by (simp only: rp mdPathOf_html)
  have "rewriteLink label (d @ ?f) frag
        = ''['' @ label @ '']('' @ mdLinkPath (ReplaceAllChar (d @ ?f) backslash slash) @ frag @ '')''"
    using rel by (simp only: rewriteLink_eq simp_thms if_True)
  then show ?thesis by (simp only: m append_assoc)
qed

lemma rewriteLink_absolute_general:
  assumes name: "slash \<notin> set name" "backslash \<notin> set name" and a: "backslash \<notin> set a"
    and ab: "HasPrefix (a @ ''/'' @ name @ ''.html'') ''http''
             \<or> HasPrefix (a @ ''/'' @ name @ ''.html'') ''/''"
    and r: "rooted = HasPrefix (a @ ''/'') ''/''"
    and dirs: "dirs = cleanElems rooted [] (map ToLower (Split a slash))"
  shows "rewriteLink label (a @ ''/'' @ name @ ''.html'') frag
         = ''['' @ label @ '']('' @ (if rooted then ''/'' else []) @
             Join (dirs @ [TrimSuffix name ''.md'' @ ''.md'']) ''/'' @ frag @ '')''"
proof -
  let ?f = "name @ ''.html''"
  let ?d = "a @ ''/''"
  have f: "slash \<notin> set ?f" "?f \<noteq> []" "backslash \<notin> set ?f" using name by auto
  have bs: "backslash \<notin> set ?d" using a by simp
  have dl: "?d = [] \<or> last ?d = slash" by simp
  have r': "rooted = (?d \<noteq> [] \<and> hd ?d = slash)" by (simp only: r HasPrefix_slash)
  have "Split ?d slash = Split a slash @ [[]]" using Split_app [of a slash "[]"] by simp
  then have "cleanElems rooted [] (map ToLower (Split ?d slash))
             = cleanElems rooted [] (map ToLower (Split a slash) @ [[]])"
    by (simp add: ToLower_def)
  then have dirs': "dirs = cleanElems rooted [] (map ToLower (Split ?d slash))"
    by (simp only: dirs cleanElems_snoc_empty)
  have "mdLinkPath (?d @ ?f) = (if rooted then ''/'' else []) @ Join (dirs @ [mdPathOf ?f]) ''/''"
    by (rule mdLinkPath_general [OF f(1,2) bs f(3) dl r' dirs'])
  then have m: "mdLinkPath (a @ ''/'' @ ?f)
           = (if rooted then ''/'' else []) @ Join (dirs @ [TrimSuffix name ''.md'' @ ''.md'']) ''/''"
    by (simp only: mdPathOf_html append_assoc)
  have "rewriteLink label (a @ ''/'' @ ?f) frag
        = ''['' @ label @ '']('' @ mdLinkPath (a @ ''/'' @ ?f) @ frag @ '')''"
    using ab by (auto simp only: rewriteLink_eq simp_thms if_False)
  then show ?thesis by (simp only: m append_assoc)
qed

lemma dirs_segments:
  assumes dirs: "dirs = cleanElems rooted [] (map ToLower (Split a slash))"
    and fm: "slash \<notin> set fm" "fm \<noteq> []"
  shows "segments ((if rooted then ''/'' else []) @ Join (dirs @ [fm]) ''/'') = dirs @ [fm]"
proof -
  have "\<forall>e\<in>set dirs. e \<noteq> [] \<and> e \<in> set (map ToLower (Split a slash))"
    using cleanElems_facts(2) [OF dirs] by blast
  moreover have "\<forall>e\<in>set (map ToLower (Split a slash)). slash \<notin> set e"
    using set_Split_no_sep [of _ a slash] by auto
  ultimately have "\<forall>e\<in>set (dirs @ [fm]). e \<noteq> [] \<and> slash \<notin> set e" using fm by auto
  then show ?thesis by (rule segments_lead) simp
qed

lemma dirs_noDots:
  assumes "noDots (Split a slash)"
  shows "cleanElems rooted [] (map ToLower (Split a slash)) = map ToLower (segments a)"
proof -
  have "noDots (map ToLower (Split a slash))" using assms by (rule noDots_map_ToLower)
  then have "cleanElems rooted [] (map ToLower (Split a slash))
             = filter (\<lambda>e. e \<noteq> []) (map ToLower (Split a slash))"
    by (simp add: cleanElems_noDots)
  also have "\<dots> = map ToLower (filter (\<lambda>e. e \<noteq> []) (Split a slash))"
    by (simp add: filter_map comp_def)
  finally show ?thesis by (simp add: segments_def)
qed


section \<open>Facts about the sort of the tree\<close>

lemma entryLe_total: "entryLe a b \<or> entryLe b a"
  by (auto simp: entryLe_def)

lemma entryLe_trans: "entryLe a b \<Longrightarrow> entryLe b c \<Longrightarrow> entryLe a c"
  by (auto simp: entryLe_def)

lemma entryLe_refl [simp]: "entryLe a a"
  by (simp add: entryLe_def)

lemma sortStep_eq:
  "sortStep i j xs = (if entryLe (xs ! i) (xs ! j) then xs else xs[i := xs ! j, j := xs ! i])"
  by (auto simp: sortStep_def entryLe_def Let_def)

lemma length_sortStep [simp]: "length (sortStep i j xs) = length xs"
  by (simp add: sortStep_eq)

lemma length_sortInner [simp]: "length (fold (sortStep i) js xs) = length xs"
  by (induction js arbitrary: xs) simp_all

lemma mset_sortStep: "i < length xs \<Longrightarrow> j < length xs \<Longrightarrow> mset (sortStep i j xs) = mset xs"
  by (simp add: sortStep_eq mset_swap)

lemma take_sortStep: "i \<le> j \<Longrightarrow> take i (sortStep i j xs) = take i xs"
  by (simp add: sortStep_eq)

lemma innerInv_step:
  assumes inv: "innerInv i J xs ys" and i: "i < J" and J: "J < length xs"
  shows "innerInv i (Suc J) xs (sortStep i J ys)"
proof -
  from inv have len: "length ys = length xs" and ms: "mset ys = mset xs"
    and tk: "take i ys = take i xs"
    and le: "\<And>k. i < k \<Longrightarrow> k < J \<Longrightarrow> entryLe (ys ! i) (ys ! k)"
    by (auto simp: innerInv_def)
  have iJ: "i < length ys" "J < length ys" using i J len by auto
  show ?thesis
  proof (cases "entryLe (ys ! i) (ys ! J)")
    case True
    then have eq: "sortStep i J ys = ys" by (simp add: sortStep_eq)
    have "\<forall>k. i < k \<and> k < Suc J \<longrightarrow> entryLe (ys ! i) (ys ! k)"
      using le True by (auto simp: less_Suc_eq)
    then show ?thesis using len ms tk by (simp add: innerInv_def eq)
  next
    case False
    then have eq: "sortStep i J ys = ys[i := ys ! J, J := ys ! i]" by (simp add: sortStep_eq)
    from False have ba: "entryLe (ys ! J) (ys ! i)" using entryLe_total by blast
    have "\<forall>k. i < k \<and> k < Suc J \<longrightarrow> entryLe (ys[i := ys ! J, J := ys ! i] ! i) (ys[i := ys ! J, J := ys ! i] ! k)"
    proof (intro allI impI)
      fix k assume k: "i < k \<and> k < Suc J"
      have hd: "ys[i := ys ! J, J := ys ! i] ! i = ys ! J" using i iJ by simp
      show "entryLe (ys[i := ys ! J, J := ys ! i] ! i) (ys[i := ys ! J, J := ys ! i] ! k)"
      proof (cases "k = J")
        case True
        then show ?thesis using hd ba iJ by simp
      next
        case False
        with k have kJ: "k < J" by simp
        then have "ys[i := ys ! J, J := ys ! i] ! k = ys ! k" using k by simp
        moreover have "entryLe (ys ! J) (ys ! k)"
          using entryLe_trans [OF ba le] k kJ by blast
        ultimately show ?thesis using hd by simp
      qed
    qed
    moreover have "mset (ys[i := ys ! J, J := ys ! i]) = mset ys"
      using mset_swap [OF iJ(2) iJ(1)] by simp
    moreover have "take i (ys[i := ys ! J, J := ys ! i]) = take i ys"
      using i by simp
    ultimately show ?thesis using len ms tk by (simp add: innerInv_def eq)
  qed
qed

lemma innerInv_fold:
  assumes "i < J" "J \<le> length xs"
  shows "innerInv i J xs (fold (sortStep i) [Suc i..<J] xs)"
  using assms
proof (induction J)
  case 0
  then show ?case by simp
next
  case (Suc J)
  show ?case
  proof (cases "i < J")
    case True
    with Suc have inv: "innerInv i J xs (fold (sortStep i) [Suc i..<J] xs)" by simp
    have "[Suc i..<Suc J] = [Suc i..<J] @ [J]" using True by simp
    then have "fold (sortStep i) [Suc i..<Suc J] xs
               = sortStep i J (fold (sortStep i) [Suc i..<J] xs)" by simp
    moreover have "innerInv i (Suc J) xs (sortStep i J (fold (sortStep i) [Suc i..<J] xs))"
      using innerInv_step [OF inv True] Suc.prems by simp
    ultimately show ?thesis by simp
  next
    case False
    with Suc.prems have "J = i" by simp
    then show ?thesis by (auto simp: innerInv_def)
  qed
qed


lemma outerInv_step:
  assumes inv: "outerInv I xs zs" and I: "I < length xs"
  shows "outerInv (Suc I) xs (fold (sortStep I) [Suc I..<length zs] zs)"
proof -
  let ?ys = "fold (sortStep I) [Suc I..<length zs] zs"
  from inv have len: "length zs = length xs" and ms: "mset zs = mset xs"
    and le: "\<And>p q. p < I \<Longrightarrow> p < q \<Longrightarrow> q < length xs \<Longrightarrow> entryLe (zs ! p) (zs ! q)"
    by (auto simp: outerInv_def)
  have "innerInv I (length zs) zs ?ys"
    by (rule innerInv_fold) (use I len in simp_all)
  then have ylen: "length ?ys = length zs" and yms: "mset ?ys = mset zs"
    and ytk: "take I ?ys = take I zs"
    and yle: "\<And>k. I < k \<Longrightarrow> k < length zs \<Longrightarrow> entryLe (?ys ! I) (?ys ! k)"
    by (auto simp: innerInv_def)
  have "mset (take I ?ys) + mset (drop I ?ys) = mset (take I zs) + mset (drop I zs)"
    using yms by (metis append_take_drop_id mset_append)
  then have dms: "mset (drop I ?ys) = mset (drop I zs)" using ytk by simp
  have "entryLe (?ys ! p) (?ys ! q)" if pq: "p < Suc I" "p < q" "q < length xs" for p q
  proof (cases "p < I")
    case True
    then have yp: "?ys ! p = zs ! p"
      by (metis ytk nth_take)
    show ?thesis
    proof (cases "q < I")
      case True
      then have "?ys ! q = zs ! q" by (metis ytk nth_take)
      with yp le [OF \<open>p < I\<close> pq(2,3)] show ?thesis by simp
    next
      case False
      then have "?ys ! q = drop I ?ys ! (q - I)" using pq len ylen by simp
      moreover have "q - I < length (drop I ?ys)" using False pq len ylen by simp
      ultimately have "?ys ! q \<in> set (drop I ?ys)" by (metis nth_mem)
      then have "?ys ! q \<in> set (drop I zs)" using dms by (metis set_mset_mset)
      then obtain r where r: "r < length (drop I zs)" "drop I zs ! r = ?ys ! q"
        by (auto simp: in_set_conv_nth)
      then have "zs ! (I + r) = ?ys ! q" "I + r < length xs" using len by auto
      moreover have "entryLe (zs ! p) (zs ! (I + r))"
        by (rule le) (use True \<open>I + r < length xs\<close> in simp_all)
      ultimately show ?thesis using yp by simp
    qed
  next
    case False
    with pq have "p = I" by simp
    then show ?thesis using yle [of q] pq len by simp
  qed
  then show ?thesis using ylen yms len ms by (simp add: outerInv_def)
qed

lemma outerInv_fold:
  assumes "I \<le> length xs"
  shows "outerInv I xs (fold (\<lambda>i cs. fold (sortStep i) [Suc i..<length cs] cs) [0..<I] xs)"
  using assms
proof (induction I)
  case 0
  then show ?case by (simp add: outerInv_def)
next
  case (Suc I)
  then have "outerInv I xs (fold (\<lambda>i cs. fold (sortStep i) [Suc i..<length cs] cs) [0..<I] xs)"
    by simp
  then show ?case using outerInv_step Suc.prems by simp
qed

lemma mset_sortChildren [simp]: "mset (sortChildren xs) = mset xs"
  using outerInv_fold [of "length xs" xs] by (simp add: outerInv_def sortChildren_def)

lemma set_sortChildren [simp]: "set (sortChildren xs) = set xs"
  by (metis mset_sortChildren set_mset_mset)

lemma length_sortChildren [simp]: "length (sortChildren xs) = length xs"
  by (metis mset_sortChildren size_mset)

lemma sorted_sortChildren: "sorted_wrt entryLe (sortChildren xs)"
proof -
  have "outerInv (length xs) xs (sortChildren xs)"
    using outerInv_fold [of "length xs" xs] by (simp add: sortChildren_def)
  then show ?thesis
    by (auto simp: sorted_wrt_iff_nth_less outerInv_def)
qed

lemma sorted_wrt_entryLe_unique:
  assumes "sorted_wrt entryLe xs" "sorted_wrt entryLe ys" "mset xs = mset ys"
    and "distinct (map Name xs)"
  shows "xs = ys"
  using assms
proof (induction xs arbitrary: ys)
  case Nil
  then show ?case by simp
next
  case (Cons x xs)
  from Cons.prems(3) obtain y ys' where ys: "ys = y # ys'" by (cases ys) auto
  have sets: "set (x # xs) = set (y # ys')" using Cons.prems(3) ys by (metis set_mset_mset)
  have inj: "\<And>a b. a \<in> set (x # xs) \<Longrightarrow> b \<in> set (x # xs) \<Longrightarrow> Name a = Name b \<Longrightarrow> a = b"
    using Cons.prems(4) by (meson distinct_map inj_onD)
  have "x = y"
  proof (rule ccontr)
    assume ne: "x \<noteq> y"
    with sets have yx: "y \<in> set xs" "x \<in> set ys'" by auto
    then have "entryLe x y" "entryLe y x" using Cons.prems(1,2) ys by auto
    then have "Name x = Name y" by (auto simp: entryLe_def)
    moreover have "x \<in> set (x # xs)" "y \<in> set (x # xs)" using yx by simp_all
    ultimately have "x = y" by (rule inj [rotated 2])
    with ne show False by simp
  qed
  with Cons.prems ys have "xs = ys'" by (intro Cons.IH) auto
  with \<open>x = y\<close> ys show ?case by simp
qed

lemma sortChildren_deterministic:
  assumes "mset xs = mset ys" "distinct (map Name xs)"
  shows "sortChildren xs = sortChildren ys"
proof -
  have "mset (map Name (sortChildren xs)) = mset (map Name xs)" by simp
  then have "distinct (map Name (sortChildren xs))"
    using assms(2) by (metis distinct_count_atmost_1 set_mset_mset)
  then show ?thesis
    using assms(1) by (intro sorted_wrt_entryLe_unique) (simp_all add: sorted_sortChildren)
qed

lemma Name_sortDirectoryTree [simp]: "Name (sortDirectoryTree e) = Name e"
  by (cases e) simp

lemma IsDir_sortDirectoryTree [simp]: "IsDir (sortDirectoryTree e) = IsDir e"
  by (cases e) simp

lemma entryLe_sortDirectoryTree [simp]:
  "entryLe (sortDirectoryTree a) (sortDirectoryTree b) = entryLe a b"
  by (simp add: entryLe_def)

lemma sortedTree_sortDirectoryTree: "sortedTree (sortDirectoryTree e)"
proof (induction e rule: sortDirectoryTree.induct)
  case (1 n p d cs)
  show ?case
  proof (cases d)
    case False
    then show ?thesis by simp
  next
    case True
    have "sorted_wrt entryLe (map sortDirectoryTree (sortChildren cs))"
      using sorted_sortChildren [of cs] by (simp add: sorted_wrt_map)
    moreover have "\<forall>c\<in>set (sortChildren cs). sortedTree (sortDirectoryTree c)"
      using 1 True by simp
    ultimately show ?thesis using True by simp
  qed
qed


section \<open>Facts about the file system and the reversal loop\<close>

lemma length_reverseLoop [simp]: "length (reverseLoop i ds) = length ds"
proof (induction i ds rule: reverseLoop.induct)
  case (1 i ds)
  show ?case
  proof (cases "i \<ge> 0")
    case True
    then show ?thesis using 1 by (subst reverseLoop.simps) (simp add: Let_def)
  next
    case False
    then show ?thesis by (subst reverseLoop.simps) simp
  qed
qed

lemma reverseLoop_nth:
  assumes "2 * (i + 1) \<le> int (length ds)" "-1 \<le> i" "j < length ds"
  shows "reverseLoop i ds ! j =
           (if int j \<le> i \<or> int (length ds) - 1 - i \<le> int j then ds ! (length ds - 1 - j) else ds ! j)"
  using assms
proof (induction i ds arbitrary: j rule: reverseLoop.induct)
  case (1 i ds)
  show ?case
  proof (cases "i \<ge> 0")
    case False
    with "1.prems" have "i = -1" by simp
    then show ?thesis using "1.prems" by (subst reverseLoop.simps) auto
  next
    case True
    define n where "n = length ds"
    define a where "a = nat i"
    define b where "b = nat (int n - 1 - i)"
    define ds' where "ds' = ds[a := ds ! b, b := ds ! a]"
    have ab: "a < b" "b < n" "b = n - 1 - a" "int a = i"
      using True "1.prems" by (auto simp: a_def b_def n_def)
    have len: "length ds' = n" by (simp add: ds'_def n_def)
    have step: "reverseLoop i ds = reverseLoop (i - 1) ds'"
      using True by (subst reverseLoop.simps) (simp add: Let_def ds'_def a_def b_def n_def)
    have IH: "reverseLoop (i - 1) ds' ! j =
           (if int j \<le> i - 1 \<or> int (length ds') - 1 - (i - 1) \<le> int j
            then ds' ! (length ds' - 1 - j) else ds' ! j)"
      using "1.IH" [OF True, of "int (length ds) - 1 - i" j] "1.prems" True len
      by (simp add: ds'_def a_def b_def n_def)
    have nth': "\<And>k. k < n \<Longrightarrow> ds' ! k = (if k = b then ds ! a else if k = a then ds ! b else ds ! k)"
      using ab by (auto simp: ds'_def n_def nth_list_update)
    have jn: "j < n" using "1.prems" by (simp add: n_def)
    have mj: "n - 1 - j < n" using jn by simp
    show ?thesis
      unfolding step IH len n_def [symmetric]
      using ab jn nth' [OF jn] nth' [OF mj]
      by (auto simp: nat_eq_iff split: if_splits)
  qed
qed

lemma reverseLoop_rev: "reverseLoop (int (length ds) div 2 - 1) ds = rev ds"
proof (rule nth_equalityI)
  show "length (reverseLoop (int (length ds) div 2 - 1) ds) = length (rev ds)" by simp
next
  fix j assume "j < length (reverseLoop (int (length ds) div 2 - 1) ds)"
  then have j: "j < length ds" by simp
  have "reverseLoop (int (length ds) div 2 - 1) ds ! j =
        (if int j \<le> int (length ds) div 2 - 1
            \<or> int (length ds) - 1 - (int (length ds) div 2 - 1) \<le> int j
         then ds ! (length ds - 1 - j) else ds ! j)"
    by (rule reverseLoop_nth) (use j in auto)
  moreover have "ds ! (length ds - 1 - j) = ds ! j"
    if "\<not> (int j \<le> int (length ds) div 2 - 1
            \<or> int (length ds) - 1 - (int (length ds) div 2 - 1) \<le> int j)"
  proof -
    from that have "int (length ds) - 1 - int j = int j" by linarith
    then have "length ds - 1 - j = j" by linarith
    then show ?thesis by simp
  qed
  ultimately show "reverseLoop (int (length ds) div 2 - 1) ds ! j = rev ds ! j"
    using j by (auto simp: rev_nth)
qed

lemma less_append_Cons: "(r :: 'a::linorder list) < r @ x # xs"
  by (induction r) simp_all

lemma isBelow_less: "isBelow r p \<Longrightarrow> r < p"
proof -
  assume "isBelow r p"
  then have "p = r @ drop (length r) p" "drop (length r) p \<noteq> []"
    by (auto simp: isBelow_def) (metis append_take_drop_id)
  then obtain x xs where "p = r @ x # xs" by (cases "drop (length r) p") auto
  then show ?thesis using less_append_Cons by blast
qed

lemma sorted_walkBelow: "sorted (map fst (walkBelow fs root))"
  by (simp add: walkBelow_def)

lemma sorted_collectDirectories: "sorted (collectDirectories fs)"
  unfolding collectDirectories_def by (rule sorted_filter) (rule sorted_walkBelow)

lemma processingOrder_rev: "processingOrder fs = rev (collectDirectories fs)"
  by (simp add: processingOrder_def reverseLoop_rev Let_def)

lemma set_walkBelow_root: "set (walkBelow fs []) = {pe \<in> set fs. fst pe \<noteq> []}"
  by (auto simp: walkBelow_def Stat_def isBelow_def)

lemma set_collectDirectories:
  assumes "distinct (map fst fs)"
  shows "set (collectDirectories fs) = {p. p \<noteq> [] \<and> Stat fs p = Some DirE}"
proof -
  have "\<And>p e. (p, e) \<in> set fs \<longleftrightarrow> map_of fs p = Some e"
    using assms by (auto dest: map_of_SomeD)
  then show ?thesis
    by (force simp: collectDirectories_def set_walkBelow_root Stat_def)
qed

lemma Stat_addEntry:
  "Stat (addEntry fs p e) q = (if q = [] then Some DirE else if q = p then Some e else Stat fs q)"
  by (simp add: Stat_def addEntry_def update_conv')

lemma Stat_None_iff: "Stat fs p = None \<longleftrightarrow> p \<noteq> [] \<and> p \<notin> fst ` set fs"
  by (auto simp: Stat_def map_of_eq_None_iff)

lemma wfFS_key:
  "wfFS fs \<Longrightarrow> p \<in> fst ` set fs \<Longrightarrow> p \<noteq> [] \<and> Stat fs (butlast p) = Some DirE"
  unfolding wfFS_def by blast

lemma Stat_key: "wfFS fs \<Longrightarrow> (p, e) \<in> set fs \<longleftrightarrow> (p \<noteq> [] \<and> Stat fs p = Some e)"
proof -
  assume wf: "wfFS fs"
  show ?thesis
  proof
    assume pe: "(p, e) \<in> set fs"
    then have "p \<in> fst ` set fs" by force
    with wf have "p \<noteq> []" using wfFS_key by blast
    moreover from wf pe have "map_of fs p = Some e" by (simp add: wfFS_def)
    ultimately show "p \<noteq> [] \<and> Stat fs p = Some e" by (simp add: Stat_def)
  next
    assume "p \<noteq> [] \<and> Stat fs p = Some e"
    then show "(p, e) \<in> set fs" by (auto simp: Stat_def dest: map_of_SomeD)
  qed
qed

lemma wfFS_parent:
  assumes "wfFS fs" "Stat fs p \<noteq> None"
  shows "Stat fs (butlast p) = Some DirE"
proof (cases "p = []")
  case True
  then show ?thesis by (simp add: Stat_def)
next
  case False
  with assms(2) have "p \<in> fst ` set fs" by (simp add: Stat_None_iff)
  with assms(1) show ?thesis using wfFS_key by blast
qed

lemma isBelow_butlast: "isBelow r p \<Longrightarrow> r = butlast p \<or> isBelow r (butlast p)"
  by (auto simp: isBelow_def butlast_conv_take min_def take_butlast
      simp flip: butlast_take)

lemma wfFS_above:
  assumes "wfFS fs"
  shows "Stat fs p \<noteq> None \<Longrightarrow> isBelow r p \<Longrightarrow> Stat fs r = Some DirE"
proof (induction "length p" arbitrary: p)
  case 0
  then show ?case by (simp add: isBelow_def)
next
  case (Suc n)
  from Suc.prems(1) have par: "Stat fs (butlast p) = Some DirE" by (rule wfFS_parent [OF assms])
  from Suc.prems(2) consider "r = butlast p" | "isBelow r (butlast p)"
    using isBelow_butlast by blast
  then show ?case
  proof cases
    case 1
    with par show ?thesis by simp
  next
    case 2
    have n: "n = length (butlast p)" using Suc.hyps(2) by simp
    have ex: "Stat fs (butlast p) \<noteq> None" using par by simp
    show ?thesis by (rule Suc.hyps(1) [OF n ex 2])
  qed
qed

lemma no_key_below_file:
  assumes "wfFS fs" "Stat fs old = Some (FileE c)" "pe \<in> set fs"
  shows "\<not> isBelow old (fst pe)"
proof
  assume b: "isBelow old (fst pe)"
  from assms(3) have "fst pe \<in> fst ` set fs" by simp
  then have "Stat fs (fst pe) \<noteq> None" by (simp add: Stat_None_iff)
  from wfFS_above [OF assms(1) this b] assms(2) show False by simp
qed

lemma map_of_moveEntries_leaf:
  assumes "new \<notin> fst ` set fs" "\<forall>pe\<in>set fs. \<not> isBelow old (fst pe)" "old \<noteq> new"
  shows "map_of (moveEntries old new fs) q =
           (if q = new then map_of fs old else if q = old then None else map_of fs q)"
  using assms
proof (induction fs)
  case Nil
  then show ?case by (simp add: moveEntries_def)
next
  case (Cons pe fs)
  obtain p e where pe: "pe = (p, e)" by (cases pe)
  from Cons.prems have "new \<notin> fst ` set fs" "\<forall>pe\<in>set fs. \<not> isBelow old (fst pe)" by auto
  with Cons.IH Cons.prems(3) have IH: "map_of (moveEntries old new fs) q =
           (if q = new then map_of fs old else if q = old then None else map_of fs q)" by simp
  have mv: "moveEntries old new (pe # fs) =
            (if p = old then (new, e) else (p, e)) # moveEntries old new fs"
    using Cons.prems(2) pe by (auto simp: moveEntries_def)
  have "p \<noteq> new" using Cons.prems(1) pe by auto
  then show ?case using IH pe Cons.prems(3) unfolding mv by auto
qed

section \<open>Facts about the merge and the rename\<close>

lemma atOrBelow_iff: "atOrBelow r p \<longleftrightarrow> r = p \<or> isBelow r p"
  by (auto simp: atOrBelow_def isBelow_def) (metis le_neq_implies_less length_take min.cobounded1 take_all_iff)

lemma atOrBelow_refl [simp]: "atOrBelow p p"
  by (simp add: atOrBelow_def)

lemma atOrBelow_butlast: "atOrBelow q (butlast p) \<Longrightarrow> atOrBelow q p"
  by (auto simp: atOrBelow_def butlast_conv_take) (metis take_take min.absorb1 length_take min.cobounded2 nat_le_linear take_all)

lemma Stat_Nil [simp]: "Stat fs [] = Some DirE"
  by (simp add: Stat_def)

lemma wfFS_addEntry_new:
  assumes "wfFS fs" "Stat fs p = None" "Stat fs (butlast p) = Some DirE"
  shows "wfFS (addEntry fs p e)"
proof -
  from assms(2) have p: "p \<noteq> []" "p \<notin> fst ` set fs" by (simp_all add: Stat_None_iff)
  have d: "distinct (map fst (addEntry fs p e))"
    using assms(1) by (simp add: addEntry_def wfFS_def distinct_update)
  have keys: "fst ` set (addEntry fs p e) = insert p (fst ` set fs)"
    by (simp add: addEntry_def dom_update)
  have "q \<noteq> [] \<and> Stat (addEntry fs p e) (butlast q) = Some DirE"
    if "q \<in> insert p (fst ` set fs)" for q
  proof -
    from that assms(1,3) p have q: "q \<noteq> []" "Stat fs (butlast q) = Some DirE"
      using wfFS_key by auto
    then have "butlast q \<noteq> p" using assms(2) by auto
    with q show ?thesis by (simp add: Stat_addEntry)
  qed
  with d keys show ?thesis unfolding wfFS_def by blast
qed

lemma Mkdir_cases:
  "Mkdir fs p = (if Stat fs p = None \<and> Stat fs (butlast p) = Some DirE
                 then (None, addEntry fs p DirE) else (fst (Mkdir fs p), fs))"
  by (auto simp: Mkdir_def)

lemma MkdirAll_dir: "Stat fs p = Some DirE \<Longrightarrow> MkdirAll fs p = (None, fs)"
  by (subst MkdirAll.simps) simp

lemma MkdirAll_file: "Stat fs p = Some (FileE c) \<Longrightarrow> MkdirAll fs p = (Some ENOTDIR, fs)"
  by (subst MkdirAll.simps) simp

lemma MkdirAll_new:
  "Stat fs p = None \<Longrightarrow> Stat fs (butlast p) = Some DirE \<Longrightarrow> MkdirAll fs p = (None, addEntry fs p DirE)"
  by (subst MkdirAll.simps) (simp add: MkdirAll_dir Mkdir_def)

lemma MkdirAll_inv:
  assumes "wfFS fs"
  shows "wfFS (snd (MkdirAll fs p))
         \<and> (\<forall>q e. Stat fs q = Some e \<longrightarrow> Stat (snd (MkdirAll fs p)) q = Some e)
         \<and> (\<forall>q. Stat fs q = None \<and> Stat (snd (MkdirAll fs p)) q \<noteq> None
                \<longrightarrow> atOrBelow q p \<and> Stat (snd (MkdirAll fs p)) q = Some DirE)
         \<and> (fst (MkdirAll fs p) = None \<longrightarrow> Stat (snd (MkdirAll fs p)) p = Some DirE)"
  using assms
proof (induction fs p rule: MkdirAll.induct)
  case (1 fs p)
  show ?case
  proof (cases "Stat fs p")
    case (Some e)
    then show ?thesis using "1.prems" by (cases e) (auto simp: MkdirAll_dir MkdirAll_file)
  next
    case None
    obtain e1 fs1 where r: "MkdirAll fs (butlast p) = (e1, fs1)" by (cases "MkdirAll fs (butlast p)")
    from "1.IH" [OF None "1.prems"] r
    have wf1: "wfFS fs1"
      and mono1: "\<And>q e. Stat fs q = Some e \<Longrightarrow> Stat fs1 q = Some e"
      and new1: "\<And>q. Stat fs q = None \<Longrightarrow> Stat fs1 q \<noteq> None
                     \<Longrightarrow> atOrBelow q (butlast p) \<and> Stat fs1 q = Some DirE"
      and ok1: "e1 = None \<Longrightarrow> Stat fs1 (butlast p) = Some DirE"
      by auto
    have pn: "p \<noteq> []" using None by (simp add: Stat_None_iff)
    have p1: "Stat fs1 p = None"
    proof (rule ccontr)
      assume "Stat fs1 p \<noteq> None"
      with new1 [OF None] have "atOrBelow p (butlast p)" by simp
      then have "length (take (length p) (butlast p)) = length p"
        by (simp add: atOrBelow_def)
      then show False using pn by (cases p rule: rev_cases) simp_all
    qed
    show ?thesis
    proof (cases e1)
      case (Some err)
      then have "MkdirAll fs p = (Some err, fs1)"
        using None r by (subst MkdirAll.simps) simp
      then show ?thesis using wf1 mono1 new1 atOrBelow_butlast by auto
    next
      case None2: None
      then have m: "MkdirAll fs p = (None, addEntry fs1 p DirE)"
        using None r p1 ok1 by (subst MkdirAll.simps) (simp add: Mkdir_def)
      have "wfFS (addEntry fs1 p DirE)"
        using wf1 p1 ok1 None2 by (intro wfFS_addEntry_new) simp_all
      moreover have "Stat (addEntry fs1 p DirE) q = Some e" if "Stat fs q = Some e" for q e
        using mono1 [OF that] p1 by (auto simp: Stat_addEntry)
      moreover have "atOrBelow q p \<and> Stat (addEntry fs1 p DirE) q = Some DirE"
        if "Stat fs q = None" "Stat (addEntry fs1 p DirE) q \<noteq> None" for q
      proof (cases "q = p")
        case True
        then show ?thesis using pn by (simp add: Stat_addEntry)
      next
        case False
        with that have "Stat fs1 q \<noteq> None" by (auto simp: Stat_addEntry split: if_splits)
        with new1 [OF that(1)] False show ?thesis
          using atOrBelow_butlast by (auto simp: Stat_addEntry)
      qed
      moreover have "Stat (addEntry fs1 p DirE) p = Some DirE" using pn by (simp add: Stat_addEntry)
      ultimately show ?thesis unfolding m by simp
    qed
  qed
qed

lemma set_walkBelow:
  "Stat fs root = Some DirE \<Longrightarrow> set (walkBelow fs root) = {pe \<in> set fs. isBelow root (fst pe)}"
  by (auto simp: walkBelow_def)

lemma distinct_walkBelow: "distinct (map fst fs) \<Longrightarrow> distinct (map fst (walkBelow fs root))"
proof -
  assume d: "distinct (map fst fs)"
  let ?xs = "filter (\<lambda>(p, e). isBelow root p) fs"
  have "mset (map fst (sort_key fst ?xs)) = mset (map fst ?xs)" by simp
  moreover have "distinct (map fst ?xs)" using d by (rule distinct_map_filter)
  ultimately have "distinct (map fst (sort_key fst ?xs))"
    by (metis mset_eq_imp_distinct_iff)
  then show ?thesis by (simp add: walkBelow_def)
qed

lemma CopyFile_new:
  assumes "Stat fs src = Some (FileE c)" "Stat fs dst = None" "Stat fs (butlast dst) = Some DirE"
  shows "CopyFile fs src dst = (None, addEntry fs dst (FileE c))"
  using assms by (simp add: CopyFile_def MkdirAll_dir)

lemma MkdirAll_parent:
  assumes "Stat fs (butlast p) = Some DirE"
  shows "MkdirAll fs p =
           (case Stat fs p of
              Some DirE \<Rightarrow> (None, fs)
            | Some (FileE c) \<Rightarrow> (Some ENOTDIR, fs)
            | None \<Rightarrow> (None, addEntry fs p DirE))"
proof (cases "Stat fs p")
  case None
  then show ?thesis using assms by (simp add: MkdirAll_new)
next
  case (Some e)
  then show ?thesis by (cases e) (simp_all add: MkdirAll_dir MkdirAll_file)
qed

lemma mergeInv_init: "wfFS fs0 \<Longrightarrow> mergeInv fs0 srcDir dstDir [] (None, fs0, [])"
  by (auto simp: mergeInv_def)

lemma mergeImage_inj:
  assumes "isBelow srcDir (fst pe)" "isBelow srcDir (fst pe')"
    and "mergeImage srcDir dstDir pe = mergeImage srcDir dstDir pe'"
  shows "fst pe = fst pe'"
proof -
  from assms(3) have "drop (length srcDir) (fst pe) = drop (length srcDir) (fst pe')"
    by (simp add: mergeImage_def)
  moreover from assms(1,2) have "take (length srcDir) (fst pe) = take (length srcDir) (fst pe')"
    by (simp add: isBelow_def)
  ultimately show ?thesis by (metis append_take_drop_id)
qed

lemma butlast_mergeImage:
  assumes "isBelow srcDir p"
  shows "butlast (mergeImage srcDir dstDir (p, e)) =
           (if butlast p = srcDir then dstDir else mergeImage srcDir dstDir (butlast p, DirE))"
proof -
  from assms have d: "drop (length srcDir) p \<noteq> []" and t: "take (length srcDir) p = srcDir"
    by (auto simp: isBelow_def)
  then have 1: "butlast (dstDir @ drop (length srcDir) p) = dstDir @ butlast (drop (length srcDir) p)"
    by (simp add: butlast_append)
  have 2: "butlast (drop (length srcDir) p) = drop (length srcDir) (butlast p)"
    by (rule butlast_drop)
  have 3: "butlast p = srcDir \<Longrightarrow> drop (length srcDir) (butlast p) = []" by simp
  show ?thesis using 1 2 3 by (simp add: mergeImage_def)
qed

lemma mergeImage_nonempty: "isBelow srcDir (fst pe) \<Longrightarrow> mergeImage srcDir dstDir pe \<noteq> []"
  by (simp add: mergeImage_def isBelow_def)

lemma mergeInv_error:
  assumes "mergeInv fs0 s d seen (err, cur, sk)"
  shows "mergeInv fs0 s d (seen @ [pe]) (Some x, cur, sk)"
  using assms by (auto simp: mergeInv_def)

lemma mergeInv_add:
  assumes inv: "mergeInv fs0 s d seen (None, cur, sk)"
    and below: "isBelow s (fst pe)"
    and new: "Stat cur (mergeImage s d pe) = None"
    and par: "Stat cur (butlast (mergeImage s d pe)) = Some DirE"
  shows "mergeInv fs0 s d (seen @ [pe]) (None, addEntry cur (mergeImage s d pe) (snd pe), sk)"
proof -
  let ?im = "mergeImage s d pe"
  let ?cur' = "addEntry cur ?im (snd pe)"
  from inv have wf: "wfFS cur"
    and mono: "\<And>q e. Stat fs0 q = Some e \<Longrightarrow> Stat cur q = Some e"
    and fresh: "\<And>q. Stat fs0 q = None \<Longrightarrow> Stat cur q \<noteq> None \<Longrightarrow>
                  \<exists>pe\<in>set seen. q = mergeImage s d pe \<and> Stat cur q = Some (snd pe)"
    and img: "\<And>pe'. pe' \<in> set seen \<Longrightarrow> Stat cur (mergeImage s d pe') \<noteq> None
                   \<and> (snd pe' = DirE \<longrightarrow> Stat cur (mergeImage s d pe') = Some DirE)"
    and skp: "sk = map (mergeImage s d)
                (filter (\<lambda>pe. snd pe \<noteq> DirE \<and> Stat fs0 (mergeImage s d pe) \<noteq> None) seen)"
    unfolding mergeInv_def by auto
  have ne: "?im \<noteq> []" by (rule mergeImage_nonempty [OF below])
  have st: "\<And>q. Stat ?cur' q = (if q = ?im then Some (snd pe) else Stat cur q)"
    using ne by (auto simp: Stat_addEntry)
  have a: "wfFS ?cur'" by (rule wfFS_addEntry_new [OF wf new par])
  have b: "Stat ?cur' q = Some e" if "Stat fs0 q = Some e" for q e
    using mono [OF that] new by (auto simp: st)
  have c: "\<exists>pe'\<in>set (seen @ [pe]). q = mergeImage s d pe' \<and> Stat ?cur' q = Some (snd pe')"
    if q: "Stat fs0 q = None" "Stat ?cur' q \<noteq> None" for q
  proof (cases "q = ?im")
    case True
    then show ?thesis by (auto simp: st)
  next
    case False
    with q have "Stat cur q \<noteq> None" by (simp add: st)
    from fresh [OF q(1) this] False show ?thesis by (auto simp: st)
  qed
  have d: "Stat ?cur' (mergeImage s d pe') \<noteq> None
           \<and> (snd pe' = DirE \<longrightarrow> Stat ?cur' (mergeImage s d pe') = Some DirE)"
    if "pe' \<in> set (seen @ [pe])" for pe'
  proof (cases "mergeImage s d pe' = ?im")
    case True
    show ?thesis
    proof (cases "pe' \<in> set seen")
      case True2: True
      with img [OF True2] True new show ?thesis by simp
    next
      case False
      with that have "pe' = pe" by simp
      then show ?thesis using ne by (simp add: Stat_addEntry)
    qed
  next
    case False
    with that have "pe' \<in> set seen" by auto
    from img [OF this] False show ?thesis by (simp add: st)
  qed
  have "Stat fs0 ?im = None"
    using mono [of ?im] new by (cases "Stat fs0 ?im") auto
  then have e: "sk = map (mergeImage s d)
                (filter (\<lambda>pe. snd pe \<noteq> DirE \<and> Stat fs0 (mergeImage s d pe) \<noteq> None) (seen @ [pe]))"
    using skp by simp
  have b': "\<forall>q e. Stat fs0 q = Some e \<longrightarrow> Stat ?cur' q = Some e" using b by blast
  have c': "\<forall>q. Stat fs0 q = None \<and> Stat ?cur' q \<noteq> None \<longrightarrow>
               (\<exists>pe'\<in>set (seen @ [pe]). q = mergeImage s d pe' \<and> Stat ?cur' q = Some (snd pe'))"
    using c by blast
  have d': "\<forall>pe'\<in>set (seen @ [pe]). Stat ?cur' (mergeImage s d pe') \<noteq> None
                   \<and> (snd pe' = DirE \<longrightarrow> Stat ?cur' (mergeImage s d pe') = Some DirE)"
    using d by blast
  show ?thesis
    unfolding mergeInv_def prod.case by (intro conjI impI a b' c' d' e)
qed

lemma mergeInv_keep:
  assumes inv: "mergeInv fs0 s d seen (None, cur, sk)"
    and below: "isBelow s (fst pe)" "\<forall>pe'\<in>set seen. isBelow s (fst pe')"
    and notdone: "fst pe \<notin> fst ` set seen"
    and ex: "Stat cur (mergeImage s d pe) \<noteq> None"
    and dir: "snd pe = DirE \<longrightarrow> Stat cur (mergeImage s d pe) = Some DirE"
  shows "mergeInv fs0 s d (seen @ [pe])
           (None, cur, if snd pe = DirE then sk else sk @ [mergeImage s d pe])"
proof -
  let ?im = "mergeImage s d pe"
  from inv have wf: "wfFS cur"
    and mono: "\<And>q e. Stat fs0 q = Some e \<Longrightarrow> Stat cur q = Some e"
    and fresh: "\<And>q. Stat fs0 q = None \<Longrightarrow> Stat cur q \<noteq> None \<Longrightarrow>
                  \<exists>pe\<in>set seen. q = mergeImage s d pe \<and> Stat cur q = Some (snd pe)"
    and img: "\<And>pe'. pe' \<in> set seen \<Longrightarrow> Stat cur (mergeImage s d pe') \<noteq> None
                   \<and> (snd pe' = DirE \<longrightarrow> Stat cur (mergeImage s d pe') = Some DirE)"
    and skp: "sk = map (mergeImage s d)
                (filter (\<lambda>pe. snd pe \<noteq> DirE \<and> Stat fs0 (mergeImage s d pe) \<noteq> None) seen)"
    unfolding mergeInv_def by auto
  have c: "\<exists>pe'\<in>set (seen @ [pe]). q = mergeImage s d pe' \<and> Stat cur q = Some (snd pe')"
    if q: "Stat fs0 q = None" "Stat cur q \<noteq> None" for q
    using fresh [OF q] by auto
  have d: "Stat cur (mergeImage s d pe') \<noteq> None
           \<and> (snd pe' = DirE \<longrightarrow> Stat cur (mergeImage s d pe') = Some DirE)"
    if "pe' \<in> set (seen @ [pe])" for pe'
  proof (cases "pe' \<in> set seen")
    case True
    then show ?thesis by (rule img)
  next
    case False
    with that have "pe' = pe" by simp
    then show ?thesis using ex dir by simp
  qed
  have old: "Stat fs0 ?im \<noteq> None"
  proof
    assume n: "Stat fs0 ?im = None"
    from fresh [OF n ex] obtain pe' where pe': "pe' \<in> set seen" "?im = mergeImage s d pe'" by blast
    with below have "fst pe = fst pe'" by (intro mergeImage_inj [of s _ _ d]) auto
    with pe'(1) notdone show False by auto
  qed
  have e: "(if snd pe = DirE then sk else sk @ [?im]) = map (mergeImage s d)
                (filter (\<lambda>pe. snd pe \<noteq> DirE \<and> Stat fs0 (mergeImage s d pe) \<noteq> None) (seen @ [pe]))"
    using skp old by simp
  have b': "\<forall>q e. Stat fs0 q = Some e \<longrightarrow> Stat cur q = Some e" using mono by blast
  have c': "\<forall>q. Stat fs0 q = None \<and> Stat cur q \<noteq> None \<longrightarrow>
               (\<exists>pe'\<in>set (seen @ [pe]). q = mergeImage s d pe' \<and> Stat cur q = Some (snd pe'))"
    using c by blast
  have d': "\<forall>pe'\<in>set (seen @ [pe]). Stat cur (mergeImage s d pe') \<noteq> None
                   \<and> (snd pe' = DirE \<longrightarrow> Stat cur (mergeImage s d pe') = Some DirE)"
    using d by blast
  show ?thesis
    unfolding mergeInv_def prod.case by (intro conjI impI wf b' c' d' e)
qed

lemma mergeStep_inv:
  assumes wf0: "wfFS fs0" and src: "Stat fs0 s = Some DirE" and dst: "Stat fs0 d = Some DirE"
    and W: "walkBelow fs0 s = seen @ pe # rest"
    and inv: "mergeInv fs0 s d seen st"
  shows "mergeInv fs0 s d (seen @ [pe]) (mergeStep s d pe st)"
proof -
  obtain err cur sk where st: "st = (err, cur, sk)" by (cases st)
  show ?thesis
  proof (cases err)
    case (Some x)
    then have "mergeStep s d pe st = (Some x, cur, sk)" by (simp add: mergeStep_def st)
    then show ?thesis using mergeInv_error inv st by metis
  next
    case None
    obtain p e where pe: "pe = (p, e)" by (cases pe)
    let ?im = "mergeImage s d pe"
    have inv': "mergeInv fs0 s d seen (None, cur, sk)" using inv st None by simp
    then have wf: "wfFS cur"
      and mono: "\<And>q e. Stat fs0 q = Some e \<Longrightarrow> Stat cur q = Some e"
      and img: "\<And>pe'. pe' \<in> set seen \<Longrightarrow> Stat cur (mergeImage s d pe') \<noteq> None
                   \<and> (snd pe' = DirE \<longrightarrow> Stat cur (mergeImage s d pe') = Some DirE)"
      unfolding mergeInv_def by auto
    have setW: "set (walkBelow fs0 s) = {pe \<in> set fs0. isBelow s (fst pe)}"
      by (rule set_walkBelow [OF src])
    have inW: "\<And>x. x \<in> set (seen @ pe # rest) \<Longrightarrow> x \<in> set fs0 \<and> isBelow s (fst x)"
      using setW W by auto
    have below: "isBelow s p" and key: "(p, e) \<in> set fs0" using inW [of pe] pe by auto
    have belowd: "\<forall>pe'\<in>set seen. isBelow s (fst pe')" using inW by auto
    have dist: "distinct (map fst (seen @ pe # rest))"
      using distinct_walkBelow [of fs0 s] wf0 W by (simp add: wfFS_def)
    then have notdone: "fst pe \<notin> fst ` set seen" by auto
    have srt: "sorted (map fst (seen @ pe # rest))"
      using sorted_walkBelow [of fs0 s] W by simp
    have stp: "Stat fs0 p = Some e" using key wf0 by (simp add: Stat_key)
    have imdef: "?im = d @ drop (length s) p" by (simp add: mergeImage_def pe)
    \<comment> \<open>the parent of the image is a directory by now\<close>
    have par: "Stat cur (butlast ?im) = Some DirE"
    proof (cases "butlast p = s")
      case True
      then have "butlast ?im = d" using butlast_mergeImage [OF below, of d e] pe by simp
      with mono [OF dst] show ?thesis by simp
    next
      case False
      with below have b2: "isBelow s (butlast p)" using isBelow_butlast by blast
      have "Stat fs0 (butlast p) = Some DirE"
        using wfFS_parent [OF wf0, of p] stp by simp
      moreover have "butlast p \<noteq> []"
      proof -
        from b2 have "length s < length (butlast p)" unfolding isBelow_def by blast
        then have "0 < length (butlast p)" by (rule le_less_trans [OF le0])
        then show ?thesis by (cases "butlast p") simp_all
      qed
      ultimately have k2: "(butlast p, DirE) \<in> set fs0" using wf0 by (simp add: Stat_key)
      with b2 have "(butlast p, DirE) \<in> set (seen @ pe # rest)" using setW W by auto
      moreover have "butlast p \<noteq> p" using below by (auto simp: isBelow_def dest: arg_cong [where f = length])
      moreover have "(butlast p, DirE) \<notin> set rest"
      proof
        assume "(butlast p, DirE) \<in> set rest"
        then have "p \<le> butlast p" using srt pe by (auto simp: sorted_append)
        moreover have "butlast p < p"
          by (rule isBelow_less) (use below in \<open>auto simp: isBelow_def butlast_conv_take\<close>)
        ultimately show False by simp
      qed
      ultimately have "(butlast p, DirE) \<in> set seen" using pe by auto
      from img [OF this] have "Stat cur (mergeImage s d (butlast p, DirE)) = Some DirE" by simp
      then show ?thesis using butlast_mergeImage [OF below, of d e] False pe by simp
    qed
    show ?thesis
    proof (cases e)
      case DirE
      have m: "MkdirAll cur ?im =
           (case Stat cur ?im of
              Some DirE \<Rightarrow> (None, cur)
            | Some (FileE c) \<Rightarrow> (Some ENOTDIR, cur)
            | None \<Rightarrow> (None, addEntry cur ?im DirE))"
        by (rule MkdirAll_parent [OF par])
      have step: "mergeStep s d pe st = (case MkdirAll cur ?im of (e', fs') \<Rightarrow> (e', fs', sk))"
        using None DirE pe by (simp add: mergeStep_def st Let_def mergeImage_def)
      show ?thesis
      proof (cases "Stat cur ?im")
        case None2: None
        then have "mergeStep s d pe st = (None, addEntry cur ?im (snd pe), sk)"
          using step m DirE pe by simp
        moreover have "mergeInv fs0 s d (seen @ [pe]) (None, addEntry cur ?im (snd pe), sk)"
          by (rule mergeInv_add [OF inv' _ None2 par]) (use below pe in simp)
        ultimately show ?thesis by simp
      next
        case (Some x)
        show ?thesis
        proof (cases x)
          case (FileE c)
          then have "mergeStep s d pe st = (Some ENOTDIR, cur, sk)"
            using step m Some by simp
          then show ?thesis using mergeInv_error [OF inv'] by simp
        next
          case DirE2: DirE
          then have "mergeStep s d pe st = (None, cur, sk)"
            using step m Some by simp
          moreover have "mergeInv fs0 s d (seen @ [pe])
                 (None, cur, if snd pe = DirE then sk else sk @ [?im])"
            by (rule mergeInv_keep [OF inv' _ belowd notdone])
               (use below pe Some DirE2 DirE in simp_all)
          ultimately show ?thesis using DirE pe by simp
        qed
      qed
    next
      case (FileE c)
      show ?thesis
      proof (cases "Stat cur ?im")
        case None2: None
        have "CopyFile cur p ?im = (None, addEntry cur ?im (FileE c))"
          by (rule CopyFile_new [OF _ None2 par]) (use mono [OF stp] FileE in simp)
        then have "mergeStep s d pe st = (None, addEntry cur ?im (snd pe), sk)"
          using None None2 FileE pe by (simp add: mergeStep_def st Let_def mergeImage_def)
        moreover have "mergeInv fs0 s d (seen @ [pe]) (None, addEntry cur ?im (snd pe), sk)"
          by (rule mergeInv_add [OF inv' _ None2 par]) (use below pe in simp)
        ultimately show ?thesis by simp
      next
        case (Some x)
        then have "mergeStep s d pe st = (None, cur, sk @ [?im])"
          using None FileE pe by (simp add: mergeStep_def st Let_def mergeImage_def)
        moreover have "mergeInv fs0 s d (seen @ [pe])
                 (None, cur, if snd pe = DirE then sk else sk @ [?im])"
          by (rule mergeInv_keep [OF inv' _ belowd notdone])
             (use below pe Some FileE in simp_all)
        ultimately show ?thesis using FileE pe by simp
      qed
    qed
  qed
qed

lemma mergeFold_inv:
  assumes wf0: "wfFS fs0" and src: "Stat fs0 s = Some DirE" and dst: "Stat fs0 d = Some DirE"
  shows "walkBelow fs0 s = seen @ rest \<Longrightarrow> mergeInv fs0 s d seen st
         \<Longrightarrow> mergeInv fs0 s d (seen @ rest) (fold (mergeStep s d) rest st)"
proof (induction rest arbitrary: seen st)
  case Nil
  then show ?case by simp
next
  case (Cons pe rest)
  have "mergeInv fs0 s d (seen @ [pe]) (mergeStep s d pe st)"
    by (rule mergeStep_inv [OF wf0 src dst Cons.prems])
  moreover have "walkBelow fs0 s = (seen @ [pe]) @ rest" using Cons.prems(1) by simp
  ultimately have "mergeInv fs0 s d ((seen @ [pe]) @ rest)
                     (fold (mergeStep s d) rest (mergeStep s d pe st))"
    by (rule Cons.IH [rotated])
  then show ?case by simp
qed

lemma mergeDirectories_inv:
  assumes "wfFS fs0" "Stat fs0 s = Some DirE" "Stat fs0 d = Some DirE"
  shows "mergeInv fs0 s d (walkBelow fs0 s) (mergeDirectories fs0 s d)"
proof -
  have "mergeInv fs0 s d ([] @ walkBelow fs0 s)
          (fold (mergeStep s d) (walkBelow fs0 s) (None, fs0, []))"
    by (rule mergeFold_inv [OF assms]) (simp_all add: mergeInv_init [OF assms(1)])
  then show ?thesis using assms(2) by (simp add: mergeDirectories_def)
qed

lemma mergeDirectories_facts:
  assumes wf: "wfFS fs" and src: "Stat fs s = Some DirE" and dst: "Stat fs d = Some DirE"
    and res: "mergeDirectories fs s d = (err, fs', skipped)"
  shows "wfFS fs'"
    and "\<And>q e. Stat fs q = Some e \<Longrightarrow> Stat fs' q = Some e"
    and "\<And>q. \<not> isBelow d q \<Longrightarrow> Stat fs' q = Stat fs q"
    and "\<And>rel e. err = None \<Longrightarrow> rel \<noteq> [] \<Longrightarrow> Stat fs (s @ rel) = Some e \<Longrightarrow>
           Stat fs' (d @ rel) = (case Stat fs (d @ rel) of None \<Rightarrow> Some e | Some x \<Rightarrow> Some x)"
    and "err = None \<Longrightarrow>
           skipped = map (mergeImage s d)
                       (filter (\<lambda>pe. snd pe \<noteq> DirE \<and> Stat fs (mergeImage s d pe) \<noteq> None)
                          (walkBelow fs s))"
proof -
  let ?W = "walkBelow fs s"
  have inv: "mergeInv fs s d ?W (err, fs', skipped)"
    using mergeDirectories_inv [OF wf src dst] res by simp
  then have mono: "\<And>q e. Stat fs q = Some e \<Longrightarrow> Stat fs' q = Some e"
    and fresh: "\<And>q. Stat fs q = None \<Longrightarrow> Stat fs' q \<noteq> None \<Longrightarrow>
                  \<exists>pe\<in>set ?W. q = mergeImage s d pe \<and> Stat fs' q = Some (snd pe)"
    and img: "\<And>pe'. err = None \<Longrightarrow> pe' \<in> set ?W \<Longrightarrow> Stat fs' (mergeImage s d pe') \<noteq> None"
    unfolding mergeInv_def by auto
  have setW: "set ?W = {pe \<in> set fs. isBelow s (fst pe)}" by (rule set_walkBelow [OF src])
  show "wfFS fs'" using inv unfolding mergeInv_def by simp
  show "\<And>q e. Stat fs q = Some e \<Longrightarrow> Stat fs' q = Some e" by (rule mono)
  show "Stat fs' q = Stat fs q" if nb: "\<not> isBelow d q" for q
  proof (cases "Stat fs q")
    case (Some e)
    then show ?thesis using mono by simp
  next
    case None
    show ?thesis
    proof (rule ccontr)
      assume "Stat fs' q \<noteq> Stat fs q"
      with None have "Stat fs' q \<noteq> None" by simp
      from fresh [OF None this] obtain pe where pe: "pe \<in> set ?W" "q = mergeImage s d pe" by blast
      then have "isBelow s (fst pe)" using setW by auto
      then have "isBelow d q" using pe(2) by (auto simp: mergeImage_def isBelow_def)
      with nb show False by simp
    qed
  qed
  show "Stat fs' (d @ rel) = (case Stat fs (d @ rel) of None \<Rightarrow> Some e | Some x \<Rightarrow> Some x)"
    if ok: "err = None" and rel: "rel \<noteq> []" and st: "Stat fs (s @ rel) = Some e" for rel e
  proof (cases "Stat fs (d @ rel)")
    case (Some x)
    then show ?thesis using mono by simp
  next
    case None
    have key: "(s @ rel, e) \<in> set fs" using st rel wf by (simp add: Stat_key)
    have bel: "isBelow s (s @ rel)" using rel by (simp add: isBelow_def)
    with key have inW: "(s @ rel, e) \<in> set ?W" using setW by simp
    have im: "mergeImage s d (s @ rel, e) = d @ rel" by (simp add: mergeImage_def)
    from img [OF ok inW] have "Stat fs' (d @ rel) \<noteq> None" by (simp add: im)
    from fresh [OF None this] obtain pe where
      pe: "pe \<in> set ?W" "d @ rel = mergeImage s d pe" "Stat fs' (d @ rel) = Some (snd pe)" by blast
    then have b2: "isBelow s (fst pe)" "pe \<in> set fs" using setW by auto
    have "fst (s @ rel, e) = fst pe"
      by (rule mergeImage_inj [of s _ _ d]) (use bel b2 pe(2) im in simp_all)
    then have "fst pe = s @ rel" by simp
    moreover obtain p' e' where pe': "pe = (p', e')" by (cases pe)
    ultimately have "Stat fs (s @ rel) = Some e'" using b2(2) wf by (simp add: Stat_key)
    with st pe' pe(3) None show ?thesis by simp
  qed
  show "skipped = map (mergeImage s d)
                       (filter (\<lambda>pe. snd pe \<noteq> DirE \<and> Stat fs (mergeImage s d pe) \<noteq> None) ?W)"
    if "err = None"
    using inv that unfolding mergeInv_def by simp
qed

lemma atOrBelow_append: "atOrBelow r (r @ xs)"
  by (simp add: atOrBelow_def)

lemma atOrBelow_split: "atOrBelow r p \<Longrightarrow> p = r @ drop (length r) p"
  by (metis atOrBelow_def append_take_drop_id)

lemma atOrBelow_same_length: "atOrBelow a p \<Longrightarrow> atOrBelow b p \<Longrightarrow> length a = length b \<Longrightarrow> a = b"
  by (simp add: atOrBelow_def)

lemma moveEntries_alt: "moveEntries old new fs = map (movePath old new) fs"
  unfolding moveEntries_def
  by (rule map_cong) (auto simp: movePath_def atOrBelow_iff)

lemma movePath_roundtrip:
  assumes "\<not> atOrBelow tmp (fst pe)" "length tmp = length old"
  shows "movePath tmp old (movePath old tmp pe) = pe"
proof (cases "atOrBelow old (fst pe)")
  case True
  then have p: "fst pe = old @ drop (length old) (fst pe)" by (rule atOrBelow_split)
  have 1: "movePath old tmp pe = (tmp @ drop (length old) (fst pe), snd pe)"
    using True by (simp add: movePath_def)
  have 2: "atOrBelow tmp (tmp @ drop (length old) (fst pe))" by (rule atOrBelow_append)
  have 3: "old @ drop (length tmp) (tmp @ drop (length old) (fst pe)) = fst pe"
    using p assms(2) by simp
  show ?thesis unfolding 1 using 2 3 by (simp add: movePath_def)
next
  case False
  then show ?thesis using assms(1) by (simp add: movePath_def)
qed

lemma moveEntries_roundtrip:
  assumes "\<forall>pe\<in>set fs. \<not> atOrBelow tmp (fst pe)" "length tmp = length old"
  shows "moveEntries tmp old (moveEntries old tmp fs) = fs"
proof -
  have "map (\<lambda>pe. movePath tmp old (movePath old tmp pe)) fs = fs"
    by (rule map_idI) (use assms movePath_roundtrip in blast)
  then show ?thesis by (simp add: moveEntries_alt comp_def)
qed

lemma Stat_moveEntries:
  assumes free: "\<forall>pe\<in>set fs. \<not> atOrBelow new (fst pe)"
    and len: "length new = length old" and ne: "old \<noteq> new" "old \<noteq> []"
  shows "Stat (moveEntries old new fs) q =
           (if atOrBelow new q then Stat fs (old @ drop (length new) q)
            else if atOrBelow old q then None else Stat fs q)"
proof -
  have new_ne: "new \<noteq> []" using len ne(2) by auto
  have m: "map_of (moveEntries old new fs) q =
           (if atOrBelow new q then map_of fs (old @ drop (length new) q)
            else if atOrBelow old q then None else map_of fs q)"
    using free
  proof (induction fs)
    case Nil
    then show ?case by (simp add: moveEntries_alt)
  next
    case (Cons pe fs)
    obtain p e where pe: "pe = (p, e)" by (cases pe)
    from Cons.prems have np: "\<not> atOrBelow new p" and rest: "\<forall>pe\<in>set fs. \<not> atOrBelow new (fst pe)"
      using pe by auto
    note IH = Cons.IH [OF rest]
    have mv: "moveEntries old new (pe # fs) =
              (if atOrBelow old p then (new @ drop (length old) p, e) else (p, e))
              # moveEntries old new fs"
      by (simp add: moveEntries_alt movePath_def pe)
    show ?case
    proof (cases "atOrBelow old p")
      case True
      then have p: "p = old @ drop (length old) p" by (rule atOrBelow_split)
      have eq: "q = new @ drop (length old) p \<longleftrightarrow> atOrBelow new q \<and> old @ drop (length new) q = p"
      proof
        assume "q = new @ drop (length old) p"
        then show "atOrBelow new q \<and> old @ drop (length new) q = p"
          using p len by (simp add: atOrBelow_append)
      next
        assume a: "atOrBelow new q \<and> old @ drop (length new) q = p"
        then have "q = new @ drop (length new) q" using atOrBelow_split by blast
        moreover from a have "drop (length old) p = drop (length new) q" using len by auto
        ultimately show "q = new @ drop (length old) p" by simp
      qed
      show ?thesis unfolding mv using True IH eq pe by auto
    next
      case False
      have a: "q = p \<Longrightarrow> \<not> atOrBelow new q \<and> \<not> atOrBelow old q" using np False by simp
      have b: "atOrBelow new q \<Longrightarrow> old @ drop (length new) q \<noteq> p"
        using False by (metis atOrBelow_append)
      show ?thesis unfolding mv using False IH a b pe by auto
    qed
  qed
  show ?thesis
  proof (cases "q = []")
    case True
    then show ?thesis using new_ne ne(2) by (auto simp: atOrBelow_def)
  next
    case False
    then show ?thesis using m ne(2) by (simp add: Stat_def)
  qed
qed

lemma nothing_below_absent:
  assumes "wfFS fs" "Stat fs t = None"
  shows "\<forall>pe\<in>set fs. \<not> atOrBelow t (fst pe)"
proof
  fix pe assume pe: "pe \<in> set fs"
  then have ex: "Stat fs (fst pe) \<noteq> None" by (simp add: Stat_None_iff)
  show "\<not> atOrBelow t (fst pe)"
  proof
    assume "atOrBelow t (fst pe)"
    then consider "t = fst pe" | "isBelow t (fst pe)" by (auto simp: atOrBelow_iff)
    then show False
    proof cases
      case 1
      with ex assms(2) show False by simp
    next
      case 2
      from wfFS_above [OF assms(1) ex 2] assms(2) show False by simp
    qed
  qed
qed

lemma Rename_dir_success:
  assumes "Rename fs old new = (None, fs')" "Stat fs old = Some DirE"
  shows "Stat fs new = None \<and> fs' = moveEntries old new fs"
  using assms by (auto simp: Rename_def split: option.splits entry.splits if_splits)

lemma Rename_failure: "Rename fs old new = (Some e, fs') \<Longrightarrow> fs' = fs"
  by (auto simp: Rename_def split: option.splits entry.splits if_splits)

lemma mergeDirectories_not_dir:
  "Stat fs s = Some (FileE c) \<Longrightarrow> mergeDirectories fs s d = (None, fs, [])"
  by (simp add: mergeDirectories_def walkBelow_def)

section \<open>Facts about the renaming of the original documents\<close>

lemma validName_cleanStack: "\<forall>n\<in>set xs. validName n \<Longrightarrow> cleanStack r xs"
  by (induction xs) (auto simp: validName_def)

lemma JoinPath_plain:
  assumes "\<forall>n\<in>set dir. validName n" "validName x"
  shows "JoinPath dir x = dir @ [x]"
proof -
  have "Split x slash = [x]" using assms(2) by (simp add: validName_def Split_no_sep)
  moreover have "cleanStack True (rev (dir @ [x]) @ [])"
    using assms by (intro validName_cleanStack) auto
  then have "cleanElems True [] (dir @ [x]) = rev [] @ (dir @ [x])" by (rule cleanElems_id)
  ultimately show ?thesis by (simp add: JoinPath_def)
qed

lemma HasSuffix_after_sep:
  assumes "c \<notin> set x"
  shows "HasSuffix (y @ c # n) x \<longleftrightarrow> HasSuffix n x"
proof
  assume "HasSuffix n x"
  then obtain t where "n = t @ x" by (auto simp: HasSuffix_iff)
  then have "y @ c # n = (y @ c # t) @ x" by simp
  then show "HasSuffix (y @ c # n) x" unfolding HasSuffix_iff by blast
next
  assume "HasSuffix (y @ c # n) x"
  then obtain t where "(y @ [c]) @ n = t @ x" by (auto simp: HasSuffix_iff)
  then obtain us where us: "(y @ [c] = t @ us \<and> us @ n = x) \<or> ((y @ [c]) @ us = t \<and> n = us @ x)"
    unfolding append_eq_append_conv2 by blast
  show "HasSuffix n x"
  proof (cases "us = []")
    case True
    with us show ?thesis by (auto simp: HasSuffix_iff)
  next
    case False
    show ?thesis
    proof (cases "n = us @ x")
      case True
      then show ?thesis unfolding HasSuffix_iff by blast
    next
      case n: False
      with us have 1: "y @ [c] = t @ us" and 2: "us @ n = x" by auto
      from 1 False have "last us = c" by (metis last_appendR last_snoc)
      with False have "c \<in> set us" using last_in_set by metis
      with 2 assms show ?thesis by auto
    qed
  qed
qed

lemma pathString_snoc: "p \<noteq> [] \<Longrightarrow> \<exists>y. pathString p = last p \<or> pathString p = y @ slash # last p"
proof (induction p "''/''" rule: Join.induct)
  case 1
  then show ?case by simp
next
  case (2 x)
  then show ?case by (simp add: pathString_def)
next
  case (3 x y ys)
  then obtain z where "pathString (y # ys) = last (y # ys) \<or> pathString (y # ys) = z @ slash # last (y # ys)"
    by auto
  then show ?case
  proof
    assume "pathString (y # ys) = last (y # ys)"
    then have "pathString (x # y # ys) = x @ slash # last (x # y # ys)"
      by (simp add: pathString_def)
    then show ?thesis by blast
  next
    assume "pathString (y # ys) = z @ slash # last (y # ys)"
    then have "pathString (x # y # ys) = (x @ slash # z) @ slash # last (x # y # ys)"
      by (simp add: pathString_def)
    then show ?thesis by blast
  qed
qed

lemma isHtmlFile_iff:
  assumes "p \<noteq> []"
  shows "isHtmlFile (p, e) \<longleftrightarrow> e \<noteq> DirE \<and> HasSuffix (ToLower (last p)) ''.html''"
proof -
  from pathString_snoc [OF assms] obtain y where
    "pathString p = last p \<or> pathString p = y @ slash # last p" by blast
  then have "HasSuffix (ToLower (pathString p)) ''.html'' \<longleftrightarrow> HasSuffix (ToLower (last p)) ''.html''"
  proof
    assume "pathString p = last p"
    then show ?thesis by simp
  next
    assume "pathString p = y @ slash # last p"
    then have "ToLower (pathString p) = ToLower y @ slash # ToLower (last p)"
      by (simp add: ToLower_def)
    then show ?thesis using HasSuffix_after_sep [of slash "''.html''" "ToLower y" "ToLower (last p)"]
      by simp
  qed
  then show ?thesis by (simp add: isHtmlFile_def)
qed

lemma newName_valid:
  assumes "slash \<notin> set renamePrefix" "slash \<notin> set name" "HasSuffix (ToLower name) ''.html''"
  shows "validName (renamePrefix @ ToLower name)"
proof -
  from assms(3) obtain t where t: "ToLower name = t @ ''.html''" by (auto simp: HasSuffix_iff)
  then have "length (ToLower name) \<ge> 5" by simp
  then have l: "length (renamePrefix @ ToLower name) \<ge> 5" by simp
  define w where "w = renamePrefix @ ToLower name"
  have "length w \<ge> 5" using l by (simp only: w_def)
  then have "w \<noteq> [] \<and> w \<noteq> ''.'' \<and> w \<noteq> ''..''" by auto
  then have "renamePrefix @ ToLower name \<noteq> [] \<and> renamePrefix @ ToLower name \<noteq> ''.''
             \<and> renamePrefix @ ToLower name \<noteq> ''..''" unfolding w_def .
  then show ?thesis using assms(1,2) by (simp add: validName_def)
qed

lemma moveEntries_leaf_keys:
  assumes "\<forall>pe\<in>set fs. \<not> isBelow old (fst pe)"
  shows "map fst (moveEntries old new fs) = map (\<lambda>p. if p = old then new else p) (map fst fs)"
  using assms by (induction fs) (auto simp: moveEntries_def)

lemma renameHtmlFile_step:
  assumes wf: "wfFS cur" and f: "Stat cur p = Some (FileE c)"
    and names: "\<forall>n\<in>set p. validName n" and pre: "slash \<notin> set renamePrefix"
    and html: "HasSuffix (ToLower (last p)) ''.html''"
    and q: "q = renamedPath renamePrefix p"
  shows "Stat cur q \<noteq> None \<longrightarrow> renameHtmlFile renamePrefix p cur = cur"
    and "Stat cur q = None \<longrightarrow>
           wfFS (renameHtmlFile renamePrefix p cur)
           \<and> (\<forall>x. Stat (renameHtmlFile renamePrefix p cur) x
                  = (if x = q then Some (FileE c) else if x = p then None else Stat cur x))"
proof -
  have pne: "p \<noteq> []" using f by (auto simp: Stat_def)
  have lastv: "validName (last p)" using names pne by simp
  have "validName (renamePrefix @ ToLower (last p))"
    using newName_valid [OF pre _ html] lastv by (simp add: validName_def)
  moreover have "\<forall>n\<in>set (butlast p). validName n" using names by (auto dest: in_set_butlastD)
  ultimately have jp: "JoinPath (butlast p) (renamePrefix @ ToLower (last p)) = q"
    unfolding q renamedPath_def by (intro JoinPath_plain) auto
  have step: "renameHtmlFile renamePrefix p cur =
          (if Stat cur q \<noteq> None then cur
           else (case Rename cur p q of (Some e, fs') \<Rightarrow> cur | (None, fs') \<Rightarrow> fs'))"
    unfolding renameHtmlFile_def Let_def jp ..
  show "Stat cur q \<noteq> None \<longrightarrow> renameHtmlFile renamePrefix p cur = cur"
    unfolding step by simp
  show "Stat cur q = None \<longrightarrow>
           wfFS (renameHtmlFile renamePrefix p cur)
           \<and> (\<forall>x. Stat (renameHtmlFile renamePrefix p cur) x
                  = (if x = q then Some (FileE c) else if x = p then None else Stat cur x))"
  proof
    assume n: "Stat cur q = None"
    have qne: "q \<noteq> []" by (simp add: q renamedPath_def)
    have bq: "butlast q = butlast p" by (simp add: q renamedPath_def)
    have par: "Stat cur (butlast q) = Some DirE"
      using wfFS_parent [OF wf, of p] f bq by simp
    have diff: "p \<noteq> q" using n f by auto
    have "Rename cur p q = (None, moveEntries p q cur)"
      using n f par by (simp add: Rename_def)
    then have cur': "renameHtmlFile renamePrefix p cur = moveEntries p q cur"
      unfolding step using n by simp
    have new_notin: "q \<notin> fst ` set cur" using n by (simp add: Stat_None_iff)
    have below: "\<forall>pe\<in>set cur. \<not> isBelow p (fst pe)"
      using no_key_below_file [OF wf f] by blast
    have m: "\<And>x. map_of (moveEntries p q cur) x =
           (if x = q then map_of cur p else if x = p then None else map_of cur x)"
      by (rule map_of_moveEntries_leaf [OF new_notin below diff])
    have st: "\<And>x. Stat (moveEntries p q cur) x
                  = (if x = q then Some (FileE c) else if x = p then None else Stat cur x)"
      using m pne qne f diff by (auto simp: Stat_def)
    have keys: "map fst (moveEntries p q cur) = map (\<lambda>x. if x = p then q else x) (map fst cur)"
      by (rule moveEntries_leaf_keys [OF below])
    have "inj_on (\<lambda>x. if x = p then q else x) (set (map fst cur))"
      using new_notin by (auto simp: inj_on_def)
    moreover have "distinct (map fst cur)" using wf unfolding wfFS_def by blast
    ultimately have "distinct (map (\<lambda>x. if x = p then q else x) (map fst cur))"
      by (subst distinct_map) blast
    then have d: "distinct (map fst (moveEntries p q cur))" by (simp only: keys)
    have pk: "k \<noteq> [] \<and> Stat (moveEntries p q cur) (butlast k) = Some DirE"
      if "k \<in> fst ` set (moveEntries p q cur)" for k
    proof -
      from that have "k \<in> set (map fst (moveEntries p q cur))" by simp
      then have "k = q \<or> (k \<in> fst ` set cur \<and> k \<noteq> p)" unfolding keys by auto
      then show ?thesis
      proof
        assume k: "k = q"
        have "butlast q \<noteq> q" using qne by (metis append_butlast_last_id append_self_conv not_Cons_self2)
        moreover have "butlast q \<noteq> p" using par f by auto
        ultimately show ?thesis using k qne par st by simp
      next
        assume k: "k \<in> fst ` set cur \<and> k \<noteq> p"
        then have 1: "k \<noteq> []" "Stat cur (butlast k) = Some DirE" using wfFS_key [OF wf] by blast+
        then have "butlast k \<noteq> q" "butlast k \<noteq> p" using n f by auto
        then show ?thesis using 1 st by simp
      qed
    qed
    have "wfFS (moveEntries p q cur)" unfolding wfFS_def using d pk by blast
    then show "wfFS (renameHtmlFile renamePrefix p cur)
           \<and> (\<forall>x. Stat (renameHtmlFile renamePrefix p cur) x
                  = (if x = q then Some (FileE c) else if x = p then None else Stat cur x))"
      unfolding cur' using st by blast
  qed
qed

lemma renameInv_init: "wfFS fs \<Longrightarrow> renameInv renamePrefix fs [] files fs"
  by (simp add: renameInv_def)

lemma renameInv_step:
  assumes inv: "renameInv renamePrefix fs seen (p # todo) cur"
    and dist: "distinct (seen @ p # todo)"
    and files: "\<forall>f\<in>set (seen @ p # todo). htmlFileOf fs f"
    and pre: "slash \<notin> set renamePrefix"
  shows "renameInv renamePrefix fs (seen @ [p]) todo (renameHtmlFile renamePrefix p cur)"
proof -
  let ?N = "renamedPath renamePrefix"
  let ?cur' = "renameHtmlFile renamePrefix p cur"
  define q where "q = ?N p"
  have wf: "wfFS cur"
    and b: "\<And>x. x \<in> set (p # todo) \<Longrightarrow> Stat cur x = Stat fs x"
    and c: "\<And>x. Stat cur x \<noteq> Stat fs x \<Longrightarrow> x \<in> set seen \<or> x \<in> ?N ` set seen"
    and d: "\<And>x c. x \<in> set seen \<Longrightarrow> Stat fs x = Some (FileE c) \<Longrightarrow>
              Stat cur x = Some (FileE c)
              \<or> (Stat cur (?N x) = Some (FileE c) \<and> ?N x \<notin> set (p # todo))"
    and e: "\<And>x c. x \<in> set seen \<Longrightarrow> Stat fs x = Some (FileE c) \<Longrightarrow> Stat fs (?N x) = None \<Longrightarrow>
              (\<forall>p2\<in>set seen \<union> set (p # todo). p2 \<noteq> x \<longrightarrow> ?N p2 \<noteq> ?N x) \<Longrightarrow>
              Stat cur (?N x) = Some (FileE c) \<and> ?N x \<notin> set (p # todo)"
    using inv unfolding renameInv_def by blast+
  have hp: "htmlFileOf fs p" using files by simp
  then obtain cp where cp: "Stat fs p = Some (FileE cp)" unfolding htmlFileOf_def by blast
  have names: "\<forall>n\<in>set p. validName n" and html: "HasSuffix (ToLower (last p)) ''.html''"
    using hp unfolding htmlFileOf_def by blast+
  have curp: "Stat cur p = Some (FileE cp)" using b [of p] cp by simp
  have ex: "\<And>x. x \<in> set (seen @ p # todo) \<Longrightarrow> Stat fs x \<noteq> None"
    using files unfolding htmlFileOf_def by auto
  have pnot: "p \<notin> set seen" "p \<notin> set todo" using dist by auto
  note step = renameHtmlFile_step [OF wf curp names pre html q_def]
  show ?thesis
  proof (cases "Stat cur q = None")
    case False
    then have same: "?cur' = cur" using step(1) by blast
    have e_p: "False"
      if "Stat fs q = None" "\<forall>p2\<in>set (seen @ [p]) \<union> set todo. p2 \<noteq> p \<longrightarrow> ?N p2 \<noteq> ?N p"
    proof -
      from False that(1) have "Stat cur q \<noteq> Stat fs q" by simp
      then have "q \<in> set seen \<or> q \<in> ?N ` set seen" by (rule c)
      then show False
      proof
        assume "q \<in> set seen"
        then show False using ex [of q] that(1) by simp
      next
        assume "q \<in> ?N ` set seen"
        then obtain p2 where "p2 \<in> set seen" "?N p2 = ?N p" unfolding q_def by auto
        then show False using that(2) pnot(1) by auto
      qed
    qed
    show ?thesis unfolding renameInv_def same
    proof (intro conjI)
      show "wfFS cur" by (rule wf)
      show "\<forall>x\<in>set todo. Stat cur x = Stat fs x" using b by simp
      show "\<forall>x. Stat cur x \<noteq> Stat fs x \<longrightarrow> x \<in> set (seen @ [p]) \<or> x \<in> ?N ` set (seen @ [p])"
        using c by auto
      show "\<forall>x\<in>set (seen @ [p]). \<forall>c. Stat fs x = Some (FileE c) \<longrightarrow>
              Stat cur x = Some (FileE c) \<or> (Stat cur (?N x) = Some (FileE c) \<and> ?N x \<notin> set todo)"
      proof (intro ballI allI impI)
        fix x c' assume x: "x \<in> set (seen @ [p])" and s: "Stat fs x = Some (FileE c')"
        show "Stat cur x = Some (FileE c') \<or> (Stat cur (?N x) = Some (FileE c') \<and> ?N x \<notin> set todo)"
        proof (cases "x = p")
          case True
          then show ?thesis using curp cp s by simp
        next
          case False
          with x have "x \<in> set seen" by simp
          from d [OF this s] show ?thesis by auto
        qed
      qed
      show "\<forall>x\<in>set (seen @ [p]). \<forall>c. Stat fs x = Some (FileE c) \<and> Stat fs (?N x) = None
              \<and> (\<forall>p2\<in>set (seen @ [p]) \<union> set todo. p2 \<noteq> x \<longrightarrow> ?N p2 \<noteq> ?N x) \<longrightarrow>
              Stat cur (?N x) = Some (FileE c) \<and> ?N x \<notin> set todo"
      proof (intro ballI allI impI)
        fix x c' assume x: "x \<in> set (seen @ [p])"
          and h: "Stat fs x = Some (FileE c') \<and> Stat fs (?N x) = None
              \<and> (\<forall>p2\<in>set (seen @ [p]) \<union> set todo. p2 \<noteq> x \<longrightarrow> ?N p2 \<noteq> ?N x)"
        show "Stat cur (?N x) = Some (FileE c') \<and> ?N x \<notin> set todo"
        proof (cases "x = p")
          case True
          then show ?thesis using e_p h unfolding q_def by blast
        next
          case False
          with x have xs: "x \<in> set seen" by simp
          have "\<forall>p2\<in>set seen \<union> set (p # todo). p2 \<noteq> x \<longrightarrow> ?N p2 \<noteq> ?N x" using h by auto
          from e [OF xs _ _ this] h show ?thesis by auto
        qed
      qed
    qed
  next
    case True
    then have wf': "wfFS ?cur'"
      and st: "\<And>x. Stat ?cur' x = (if x = q then Some (FileE cp) else if x = p then None else Stat cur x)"
      using step(2) by blast+
    have qtodo: "q \<notin> set todo"
    proof
      assume "q \<in> set todo"
      then have "Stat cur q = Stat fs q" "Stat fs q \<noteq> None" using b [of q] ex [of q] by auto
      then show False using True by simp
    qed
    have keep: "Stat ?cur' x = Stat cur x" if "Stat cur x \<noteq> None" "x \<noteq> p" for x
      using that True st by auto
    show ?thesis unfolding renameInv_def
    proof (intro conjI)
      show "wfFS ?cur'" by (rule wf')
      show "\<forall>x\<in>set todo. Stat ?cur' x = Stat fs x"
      proof
        fix x assume x: "x \<in> set todo"
        then have 1: "Stat cur x = Stat fs x" "Stat fs x \<noteq> None" using b [of x] ex [of x] by auto
        have "x \<noteq> p" using x pnot by auto
        then show "Stat ?cur' x = Stat fs x" using keep [of x] 1 by simp
      qed
      show "\<forall>x. Stat ?cur' x \<noteq> Stat fs x \<longrightarrow> x \<in> set (seen @ [p]) \<or> x \<in> ?N ` set (seen @ [p])"
      proof (intro allI impI)
        fix x assume x: "Stat ?cur' x \<noteq> Stat fs x"
        show "x \<in> set (seen @ [p]) \<or> x \<in> ?N ` set (seen @ [p])"
        proof (cases "x = q \<or> x = p")
          case True
          then show ?thesis unfolding q_def by auto
        next
          case False
          then have "Stat cur x \<noteq> Stat fs x" using x st by simp
          from c [OF this] show ?thesis by auto
        qed
      qed
      show "\<forall>x\<in>set (seen @ [p]). \<forall>c. Stat fs x = Some (FileE c) \<longrightarrow>
              Stat ?cur' x = Some (FileE c) \<or> (Stat ?cur' (?N x) = Some (FileE c) \<and> ?N x \<notin> set todo)"
      proof (intro ballI allI impI)
        fix x c' assume x: "x \<in> set (seen @ [p])" and s: "Stat fs x = Some (FileE c')"
        show "Stat ?cur' x = Some (FileE c') \<or> (Stat ?cur' (?N x) = Some (FileE c') \<and> ?N x \<notin> set todo)"
        proof (cases "x = p")
          case True
          then have "c' = cp" using s cp by simp
          then show ?thesis using True st [of q] qtodo unfolding q_def by simp
        next
          case False
          with x have xs: "x \<in> set seen" by simp
          from d [OF xs s] show ?thesis
          proof
            assume "Stat cur x = Some (FileE c')"
            then show ?thesis using keep [of x] False by simp
          next
            assume a: "Stat cur (?N x) = Some (FileE c') \<and> ?N x \<notin> set (p # todo)"
            then have "Stat ?cur' (?N x) = Some (FileE c')" using keep [of "?N x"] by auto
            then show ?thesis using a by simp
          qed
        qed
      qed
      show "\<forall>x\<in>set (seen @ [p]). \<forall>c. Stat fs x = Some (FileE c) \<and> Stat fs (?N x) = None
              \<and> (\<forall>p2\<in>set (seen @ [p]) \<union> set todo. p2 \<noteq> x \<longrightarrow> ?N p2 \<noteq> ?N x) \<longrightarrow>
              Stat ?cur' (?N x) = Some (FileE c) \<and> ?N x \<notin> set todo"
      proof (intro ballI allI impI)
        fix x c' assume x: "x \<in> set (seen @ [p])"
          and h: "Stat fs x = Some (FileE c') \<and> Stat fs (?N x) = None
              \<and> (\<forall>p2\<in>set (seen @ [p]) \<union> set todo. p2 \<noteq> x \<longrightarrow> ?N p2 \<noteq> ?N x)"
        show "Stat ?cur' (?N x) = Some (FileE c') \<and> ?N x \<notin> set todo"
        proof (cases "x = p")
          case True
          then have "c' = cp" using h cp by simp
          then show ?thesis using True st [of q] qtodo unfolding q_def by simp
        next
          case False
          with x have xs: "x \<in> set seen" by simp
          have "\<forall>p2\<in>set seen \<union> set (p # todo). p2 \<noteq> x \<longrightarrow> ?N p2 \<noteq> ?N x" using h by auto
          from e [OF xs _ _ this] h have a: "Stat cur (?N x) = Some (FileE c') \<and> ?N x \<notin> set (p # todo)"
            by auto
          then have "Stat ?cur' (?N x) = Some (FileE c')" using keep [of "?N x"] by auto
          then show ?thesis using a by simp
        qed
      qed
    qed
  qed
qed

lemma renameInv_fold:
  assumes "renameInv renamePrefix fs seen todo cur"
    and "distinct (seen @ todo)"
    and "\<forall>f\<in>set (seen @ todo). htmlFileOf fs f"
    and "slash \<notin> set renamePrefix"
  shows "renameInv renamePrefix fs (seen @ todo) [] (fold (renameHtmlFile renamePrefix) todo cur)"
  using assms
proof (induction todo arbitrary: seen cur)
  case Nil
  then show ?case by simp
next
  case (Cons p todo)
  have "renameInv renamePrefix fs (seen @ [p]) todo (renameHtmlFile renamePrefix p cur)"
    by (rule renameInv_step [OF Cons.prems])
  moreover have "distinct ((seen @ [p]) @ todo)" using Cons.prems(2) by simp
  moreover have "\<forall>f\<in>set ((seen @ [p]) @ todo). htmlFileOf fs f" using Cons.prems(3) by simp
  ultimately have "renameInv renamePrefix fs ((seen @ [p]) @ todo) []
                     (fold (renameHtmlFile renamePrefix) todo (renameHtmlFile renamePrefix p cur))"
    using Cons.prems(4) by (rule Cons.IH)
  then show ?case by simp
qed

lemma collected_files:
  assumes wf: "wfFS fs" and names: "asciiNames fs"
    and files: "files = map fst (filter isHtmlFile (walkBelow fs []))"
  shows "distinct files" and "\<forall>f\<in>set files. htmlFileOf fs f"
    and "\<And>p c. Stat fs p = Some (FileE c) \<Longrightarrow> HasSuffix (ToLower (last p)) ''.html''
           \<Longrightarrow> p \<in> set files"
proof -
  have "distinct (map fst (walkBelow fs []))"
    using wf by (intro distinct_walkBelow) (simp add: wfFS_def)
  then show "distinct files" unfolding files by (rule distinct_map_filter)
  show "\<forall>f\<in>set files. htmlFileOf fs f"
  proof
    fix f assume "f \<in> set files"
    then obtain e where pe: "(f, e) \<in> set (walkBelow fs [])" and h: "isHtmlFile (f, e)"
      unfolding files by auto
    then have k: "(f, e) \<in> set fs" and ne: "f \<noteq> []" by (auto simp: set_walkBelow_root)
    have st: "Stat fs f = Some e" using Stat_key [OF wf, of f e] k by simp
    from h ne have e: "e \<noteq> DirE" and s: "HasSuffix (ToLower (last f)) ''.html''"
      by (simp_all add: isHtmlFile_iff)
    from e obtain c where "e = FileE c" by (cases e) auto
    moreover have "\<forall>n\<in>set f. validName n" using names k unfolding asciiNames_def by force
    ultimately show "htmlFileOf fs f" using st s unfolding htmlFileOf_def by blast
  qed
  show "p \<in> set files" if "Stat fs p = Some (FileE c)" "HasSuffix (ToLower (last p)) ''.html''" for p c
  proof -
    have ne: "p \<noteq> []" using that(1) by (auto simp: Stat_def)
    then have "(p, FileE c) \<in> set fs" using Stat_key [OF wf, of p "FileE c"] that(1) by simp
    then have "(p, FileE c) \<in> set (walkBelow fs [])" using ne by (simp add: set_walkBelow_root)
    moreover have "isHtmlFile (p, FileE c)" using that(2) ne by (simp add: isHtmlFile_iff)
    ultimately have "(p, FileE c) \<in> set (filter isHtmlFile (walkBelow fs []))" by simp
    then show ?thesis unfolding files by force
  qed
qed

lemma RenameHtmlFiles_inv:
  assumes wf: "wfFS fs" and names: "asciiNames fs" and pre: "slash \<notin> set renamePrefix"
    and files: "files = map fst (filter isHtmlFile (walkBelow fs []))"
  shows "renameInv renamePrefix fs files [] (RenameHtmlFiles renamePrefix fs)"
proof -
  note cf = collected_files [OF wf names files]
  have "renameInv renamePrefix fs ([] @ files) [] (fold (renameHtmlFile renamePrefix) files fs)"
    by (rule renameInv_fold [OF renameInv_init [OF wf]]) (use cf pre in simp_all)
  then show ?thesis by (simp add: RenameHtmlFiles_def Let_def files)
qed


section \<open>Claims about the extension swap and the link rewriter\<close>

text \<open>
  C3. The document-extension swap is idempotent. Applied any number of times to a name
  that already ends in \<open>.md\<close> it returns that name, so \<open>x.md\<close> stays \<open>x.md\<close> and never
  becomes \<open>x.md.md\<close>; \<open>x.md.html\<close> becomes \<open>x.md\<close>; and on any name, one application and
  any larger number of applications give the same result.
\<close>

theorem extension_swap_idempotent:
  "(mdPathOf ^^ n) (x @ ''.md'') = x @ ''.md''
   \<and> (mdPathOf ^^ n) (x @ ''.md'') \<noteq> x @ ''.md.md''
   \<and> mdPathOf (x @ ''.md.html'') = x @ ''.md''
   \<and> (mdPathOf ^^ Suc n) s = mdPathOf s
   \<and> mdPathOf (mdPathOf s) = mdPathOf s"
proof -
  have "x @ ''.md'' \<noteq> x @ ''.md.md''" by simp
  then show ?thesis
    using mdPathOf_funpow_md [of n x] mdPathOf_funpow_Suc [of n s]
    by (simp del: funpow.simps)
qed








section \<open>Claims about the sort of the tree\<close>

text \<open>
  C7. \<open>sortDirectoryTree\<close> leaves the children of every directory of the tree, at every
  depth, with every directory before every file and the names of each group in
  lexicographic order (\<open>sortedTree\<close>); the children of the sorted directory are the
  sorted children, each sorted recursively; and the order that \<open>sortChildren\<close> gives to
  siblings (whose names are distinct) is the same for every enumeration \<open>cs'\<close> of the
  siblings \<open>cs\<close>.
\<close>

theorem sortDirectoryTree_sorted:
  assumes "mset cs' = mset cs" and "distinct (map Name cs)"
  shows "sortedTree (sortDirectoryTree e)
         \<and> (IsDir e \<longrightarrow> Children (sortDirectoryTree e)
                          = map sortDirectoryTree (sortChildren (Children e)))
         \<and> sorted_wrt entryLe (sortChildren cs)
         \<and> mset (sortChildren cs) = mset cs
         \<and> sortChildren cs' = sortChildren cs"
proof -
  have "IsDir e \<longrightarrow> Children (sortDirectoryTree e)
                      = map sortDirectoryTree (sortChildren (Children e))"
    by (cases e) simp
  moreover have "sortChildren cs' = sortChildren cs"
    using assms by (intro sortChildren_deterministic [symmetric]) simp_all
  ultimately show ?thesis
    using sortedTree_sortDirectoryTree [of e] sorted_sortChildren [of cs] by simp
qed

theorem sortDirectoryTree_sorted_witness:
  "sortedTree (sortDirectoryTree exampleTree)
   \<and> Children (sortDirectoryTree exampleTree)
       = map sortDirectoryTree (sortChildren (Children exampleTree))
   \<and> sorted_wrt entryLe (sortChildren (Children exampleTree))
   \<and> mset (sortChildren (Children exampleTree)) = mset (Children exampleTree)
   \<and> sortChildren (rev (Children exampleTree)) = sortChildren (Children exampleTree)"
proof -
  have h1: "mset (rev (Children exampleTree)) = mset (Children exampleTree)" by simp
  have h2: "distinct (map Name (Children exampleTree))" by (simp add: exampleTree_def)
  have d: "IsDir exampleTree" by (simp add: exampleTree_def)
  show ?thesis
    using sortDirectoryTree_sorted [OF h1 h2, of exampleTree] d by blast
qed


section \<open>Claims about the order of the case normalizer\<close>

text \<open>
  C6. \<open>RenameDirectoriesToLowercase\<close> processes the collected directories in the exact
  reverse of the order of the walk: the in-place loop computes the reversed list, the
  list holds every directory below the root, and whenever one directory of the list
  lies below another, the deeper one comes earlier, so that at the time a directory is
  renamed no path still to be processed lies below it.
\<close>

theorem deepest_first_order:
  assumes "distinct (map fst fs)"
  shows "processingOrder fs = rev (collectDirectories fs)
         \<and> set (processingOrder fs) = {p. p \<noteq> [] \<and> Stat fs p = Some DirE}
         \<and> (\<forall>i j. i < length (processingOrder fs) \<and> j < length (processingOrder fs)
                  \<and> isBelow (processingOrder fs ! i) (processingOrder fs ! j) \<longrightarrow> j < i)
         \<and> RenameDirectoriesToLowercase fs
             = fold renameDirStep (rev (collectDirectories fs)) (fs, [], [])"
proof -
  let ?ds = "collectDirectories fs"
  let ?n = "length ?ds"
  have "j < i" if ij: "i < ?n" "j < ?n" "isBelow (rev ?ds ! i) (rev ?ds ! j)" for i j
  proof (rule ccontr)
    assume "\<not> j < i"
    then have "?n - Suc j \<le> ?n - Suc i" using ij by simp
    then have "?ds ! (?n - Suc j) \<le> ?ds ! (?n - Suc i)"
      using sorted_collectDirectories [of fs] ij by (simp add: sorted_iff_nth_mono)
    then have "rev ?ds ! j \<le> rev ?ds ! i" using ij by (simp add: rev_nth)
    moreover have "rev ?ds ! i < rev ?ds ! j" using ij(3) by (rule isBelow_less)
    ultimately show False by simp
  qed
  then show ?thesis
    using set_collectDirectories [OF assms]
    by (simp add: processingOrder_rev RenameDirectoriesToLowercase_def)
qed

theorem deepest_first_order_witness:
  "processingOrder fsA = [[''docs'', ''sub''], [''docs''], [''Top'', ''Inner''], [''Top''], [''Docs'']]"
proof -
  have d: "distinct (map fst fsA)" by (simp add: fsA_def)
  have c: "collectDirectories fsA = [[''Docs''], [''Top''], [''Top'', ''Inner''], [''docs''], [''docs'', ''sub'']]"
    by code_simp
  show ?thesis using deepest_first_order [OF d] by (simp add: c)
qed

section \<open>Claims about the outline\<close>

text \<open>
  C8, evaluated on the tree that the pipeline leaves for an input with one document
  \<open>Page.html\<close>: the converted document is \<open>Page.md\<close>, and the outline links to \<open>page.md\<close>,
  which is no entry of the tree.
\<close>

theorem outline_link_lowercased:
  "summaryContent ''_'' ''doc_converted'' fsC = ''# Summary\<newline>\<newline>- [Page](page.md)\<newline>''
   \<and> Stat fsC [''page.md''] = None
   \<and> Stat fsC [''Page.md''] = Some (FileE ''# Page'')"
  by code_simp

text \<open>
  C10. When \<open>index.html\<close>, \<open>README.md\<close> or \<open>readme.md\<close> exists at the output root, the
  content of the outline is the heading \<open># Summary\<close>, an empty line, the entry
  \<open>- [Introduction](README.md)\<close>, an empty line, and then the entries of the tree: the
  link target is \<open>README.md\<close> whichever of the three files was found; and that content is
  what \<open>GenerateSummaryMd\<close> writes to \<open>SUMMARY.md\<close>.
\<close>

theorem introduction_entry_first:
  assumes "file \<in> set [''index.html'', ''README.md'', ''readme.md'']" and "Stat fs [file] \<noteq> None"
  shows "summaryContent renamePrefix rootName fs
           = ''# Summary\<newline>\<newline>'' @ ''- [Introduction](README.md)\<newline>\<newline>''
             @ writeSummaryEntries
                 (Children (BuildDirectoryTreeAfterRename renamePrefix rootName fs)) 0
         \<and> (Stat fs [''SUMMARY.md''] \<noteq> Some DirE \<longrightarrow>
              Stat (snd (GenerateSummaryMd renamePrefix rootName fs)) [''SUMMARY.md'']
                = Some (FileE (summaryContent renamePrefix rootName fs)))"
proof -
  from assms have "hasIntroFile fs" unfolding hasIntroFile_def by blast
  then have 1: "summaryContent renamePrefix rootName fs
           = ''# Summary\<newline>\<newline>'' @ ''- [Introduction](README.md)\<newline>\<newline>''
             @ writeSummaryEntries
                 (Children (BuildDirectoryTreeAfterRename renamePrefix rootName fs)) 0"
    by (simp add: summaryContent_def Let_def)
  have 2: "Stat fs [''SUMMARY.md''] \<noteq> Some DirE \<longrightarrow>
              Stat (snd (GenerateSummaryMd renamePrefix rootName fs)) [''SUMMARY.md'']
                = Some (FileE (summaryContent renamePrefix rootName fs))"
  proof
    assume n: "Stat fs [''SUMMARY.md''] \<noteq> Some DirE"
    have r: "Stat fs (butlast [''SUMMARY.md'']) = Some DirE" by (simp add: Stat_def)
    have "GenerateSummaryMd renamePrefix rootName fs
          = (None, addEntry fs [''SUMMARY.md''] (FileE (summaryContent renamePrefix rootName fs)))"
      using n r unfolding GenerateSummaryMd_def WriteFile_def
      by (auto split: option.splits entry.splits)
    then show "Stat (snd (GenerateSummaryMd renamePrefix rootName fs)) [''SUMMARY.md'']
                = Some (FileE (summaryContent renamePrefix rootName fs))"
      by (simp add: Stat_addEntry)
  qed
  from 1 2 show ?thesis by (rule conjI)
qed

theorem introduction_entry_first_witness:
  "summaryContent ''_'' ''out'' [([''index.html''], FileE ''x'')]
     = ''# Summary\<newline>\<newline>- [Introduction](README.md)\<newline>\<newline>''"
proof -
  have h1: "''index.html'' \<in> set [''index.html'', ''README.md'', ''readme.md'']" by simp
  have h2: "Stat [([''index.html''], FileE ''x'')] [''index.html''] \<noteq> None" by (simp add: Stat_def)
  have e: "writeSummaryEntries
             (Children (BuildDirectoryTreeAfterRename ''_'' ''out'' [([''index.html''], FileE ''x'')])) 0
           = []" by code_simp
  show ?thesis
    using introduction_entry_first [OF h1 h2, of "''_''" "''out''"] by (simp add: e)
qed

section \<open>Claims about the renaming of the original documents\<close>





section \<open>Claims about collisions\<close>







end
